theory Spec2Isabelle
  imports Main "HOL-Library.Word"
begin

unbundle bit_operations_syntax

section \<open>Operation model (operations/Operation.ts)\<close>

text \<open>
  The four transforms. A JavaScript \<open>number\<close> parameter is modelled as an \<open>int\<close>
  (the theory speaks about integer-valued numbers only); an optional parameter
  (\<open>width?: number\<close>) is an \<open>int option\<close>, \<open>None\<close> being \<open>undefined\<close>.
  Equality of operations is equality of the constructor and its parameters.
\<close>

datatype Operation =
    RotateOp (degrees: int)
  | FlipOp (horizontal: bool) (vertical: bool)
  | ResizeOp (width: "int option") (height: "int option")
  | CompressOp (quality: int)

text \<open>The \<open>OpType\<close> enum: ROTATE = 1, FLIP = 2, RESIZE = 3, COMPRESS = 4.\<close>

definition ROTATE :: int where "ROTATE = 1"
definition FLIP :: int where "FLIP = 2"
definition RESIZE :: int where "RESIZE = 3"
definition COMPRESS :: int where "COMPRESS = 4"

fun op_type :: "Operation \<Rightarrow> int" where
  "op_type (RotateOp d) = ROTATE"
| "op_type (FlipOp h v) = FLIP"
| "op_type (ResizeOp w h) = RESIZE"
| "op_type (CompressOp q) = COMPRESS"

text \<open>
  JavaScript truthiness of an optional number, as used by \<open>!width\<close>, \<open>width && ...\<close>
  and \<open>width || 0\<close>: \<open>undefined\<close> and \<open>0\<close> are falsy, every other integer is truthy.
\<close>

fun truthy :: "int option \<Rightarrow> bool" where
  "truthy None = False"
| "truthy (Some n) = (n \<noteq> 0)"

text \<open>
  \<open>validate()\<close> of the four classes. For \<open>FlipOp\<close> the source tests
  \<open>typeof ... === 'boolean'\<close> on both fields, which holds for every value of type
  \<open>bool\<close>. \<open>ResizeOp.validate\<close> keeps the source's three early returns.
\<close>

fun validate :: "Operation \<Rightarrow> bool" where
  "validate (RotateOp d) = (d \<in> set [90, 180, 270])"
| "validate (FlipOp h v) = True"
| "validate (ResizeOp w h) =
     (if \<not> truthy w \<and> \<not> truthy h then False
      else if truthy w \<and> (the w < 200 \<or> the w > 4000) then False
      else if truthy h \<and> (the h < 200 \<or> the h > 4000) then False
      else True)"
| "validate (CompressOp q) = (q \<ge> 10 \<and> q \<le> 100)"

section \<open>Buffers (Node.js Buffer)\<close>

type_synonym byte = "8 word"
type_synonym u32 = "32 word"

datatype error =
    RangeError
  | TooShort
  | UnsupportedVersion int
  | PayloadTruncated
  | ChecksumMismatch
  | InvalidRotatePayload
  | InvalidFlipPayload
  | InvalidResizePayload
  | InvalidCompressPayload
  | UnknownOperationType int
  | InvalidOperationParameters
  | ImageNotFound
  | NoRevisionsToUndo
  | CannotUndoOriginal
  | ParentRevisionNotFound
  | StorageError
  | CodecError
  | CacheError

text \<open>
  The integer writers of Node's Buffer throw a RangeError (ERR_OUT_OF_RANGE) when the
  value does not fit the field; otherwise they store the value little-endian.
  Each writer returns the bytes it stores.
\<close>

definition writeUInt8 :: "int \<Rightarrow> error + byte list" where
  "writeUInt8 v = (if v < 0 \<or> v > 255 then Inl RangeError else Inr [word_of_int v])"

definition writeUInt16LE :: "int \<Rightarrow> error + byte list" where
  "writeUInt16LE v =
     (if v < 0 \<or> v > 65535 then Inl RangeError
      else Inr [word_of_int v, word_of_int (v div 2 ^ 8)])"

definition writeUInt32LE :: "int \<Rightarrow> error + byte list" where
  "writeUInt32LE v =
     (if v < 0 \<or> v > 4294967295 then Inl RangeError
      else Inr [word_of_int v, word_of_int (v div 2 ^ 8),
                word_of_int (v div 2 ^ 16), word_of_int (v div 2 ^ 24)])"

text \<open>
  A buffer filled by consecutive writes: the first write that throws aborts the whole
  construction, otherwise the stored bytes follow each other.
\<close>

fun write_all :: "(error + byte list) list \<Rightarrow> error + byte list" where
  "write_all [] = Inr []"
| "write_all (w # ws) =
     (case w of
        Inl e \<Rightarrow> Inl e
      | Inr bs \<Rightarrow> (case write_all ws of Inl e \<Rightarrow> Inl e | Inr rest \<Rightarrow> Inr (bs @ rest)))"

text \<open>
  The readers. Every call site in the protocol is behind a length check of the source that
  keeps the offsets inside the buffer, so Node's out-of-range error cannot arise there.
\<close>

definition readUInt8 :: "byte list \<Rightarrow> nat \<Rightarrow> int" where
  "readUInt8 buf off = uint (buf ! off)"

definition readUInt16LE :: "byte list \<Rightarrow> nat \<Rightarrow> int" where
  "readUInt16LE buf off = uint (buf ! off) + uint (buf ! (off + 1)) * 2 ^ 8"

definition readUInt32LE :: "byte list \<Rightarrow> nat \<Rightarrow> int" where
  "readUInt32LE buf off =
     uint (buf ! off) + uint (buf ! (off + 1)) * 2 ^ 8
       + uint (buf ! (off + 2)) * 2 ^ 16 + uint (buf ! (off + 3)) * 2 ^ 24"

text \<open>
  \<open>buf.subarray(start, end)\<close> for \<open>0 \<le> start \<le> end\<close>; an end beyond the buffer is
  clamped to its length.
\<close>

definition subarray :: "byte list \<Rightarrow> int \<Rightarrow> int \<Rightarrow> byte list" where
  "subarray buf start end = take (nat (end - start)) (drop (nat start) buf)"

section \<open>IEv1 binary protocol (protocol/IEv1.ts)\<close>

definition PROTOCOL_VERSION :: int where "PROTOCOL_VERSION = 1"
definition HEADER_SIZE :: int where "HEADER_SIZE = 12"

text \<open>
  \<open>calculateCRC32\<close>. JavaScript's bitwise operators work on the 32-bit pattern of their
  operands, so the running value is a 32-bit word: \<open>>>> 1\<close> is the logical shift,
  \<open>-(crc & 1)\<close> is the all-zeros or all-ones mask, and the final \<open>>>> 0\<close> reads the
  pattern as unsigned.
\<close>

definition crc_shift :: "u32 \<Rightarrow> u32" where
  "crc_shift crc = drop_bit 1 crc XOR (0xEDB88320 AND - (crc AND 1))"

fun crc_inner :: "nat \<Rightarrow> u32 \<Rightarrow> u32" where
  "crc_inner 0 crc = crc"
| "crc_inner (Suc j) crc = crc_inner j (crc_shift crc)"

definition crc_byte :: "u32 \<Rightarrow> byte \<Rightarrow> u32" where
  "crc_byte crc b = crc_inner 8 (crc XOR ucast b)"

fun crc_loop :: "byte list \<Rightarrow> u32 \<Rightarrow> u32" where
  "crc_loop [] crc = crc"
| "crc_loop (b # bs) crc = crc_loop bs (crc_byte crc b)"

definition calculateCRC32 :: "byte list \<Rightarrow> int" where
  "calculateCRC32 data = uint (crc_loop data 0xFFFFFFFF XOR 0xFFFFFFFF)"

text \<open>\<open>x || 0\<close> on an optional number, and \<open>n || undefined\<close> on a number read back.\<close>

fun or_zero :: "int option \<Rightarrow> int" where
  "or_zero None = 0"
| "or_zero (Some n) = n"

definition or_undefined :: "int \<Rightarrow> int option" where
  "or_undefined n = (if n = 0 then None else Some n)"

fun encodePayload :: "Operation \<Rightarrow> error + byte list" where
  "encodePayload (RotateOp d) = write_all [writeUInt8 d]"
| "encodePayload (FlipOp h v) =
     (let flags = (if h then 1 else 0) OR (if v then 2 else 0)
      in write_all [writeUInt8 flags])"
| "encodePayload (ResizeOp w h) =
     write_all [writeUInt32LE (or_zero w), writeUInt32LE (or_zero h)]"
| "encodePayload (CompressOp q) = write_all [writeUInt8 q]"

definition encode :: "Operation \<Rightarrow> error + byte list" where
  "encode operation =
     (case encodePayload operation of
        Inl e \<Rightarrow> Inl e
      | Inr payload \<Rightarrow>
          (let checksum = calculateCRC32 payload in
           case write_all [writeUInt16LE PROTOCOL_VERSION,
                           writeUInt16LE (op_type operation),
                           writeUInt32LE (int (length payload)),
                           writeUInt32LE checksum] of
             Inl e \<Rightarrow> Inl e
           | Inr header \<Rightarrow> Inr (header @ payload)))"

definition decodePayload :: "int \<Rightarrow> byte list \<Rightarrow> error + Operation" where
  "decodePayload opType payload =
     (if opType = ROTATE then
        (if length payload < 1 then Inl InvalidRotatePayload
         else Inr (RotateOp (readUInt8 payload 0)))
      else if opType = FLIP then
        (if length payload < 1 then Inl InvalidFlipPayload
         else let flags = readUInt8 payload 0
              in Inr (FlipOp (flags AND 1 \<noteq> 0) (flags AND 2 \<noteq> 0)))
      else if opType = RESIZE then
        (if length payload < 8 then Inl InvalidResizePayload
         else Inr (ResizeOp (or_undefined (readUInt32LE payload 0))
                            (or_undefined (readUInt32LE payload 4))))
      else if opType = COMPRESS then
        (if length payload < 1 then Inl InvalidCompressPayload
         else Inr (CompressOp (readUInt8 payload 0)))
      else Inl (UnknownOperationType opType))"

definition decode :: "byte list \<Rightarrow> error + Operation" where
  "decode data =
     (if int (length data) < HEADER_SIZE then Inl TooShort
      else let version = readUInt16LE data 0 in
        if version \<noteq> PROTOCOL_VERSION then Inl (UnsupportedVersion version)
        else let opType = readUInt16LE data 2;
                 payloadLen = readUInt32LE data 4;
                 expectedChecksum = readUInt32LE data 8 in
          if int (length data) < HEADER_SIZE + payloadLen then Inl PayloadTruncated
          else let payload = subarray data HEADER_SIZE (HEADER_SIZE + payloadLen);
                   actualChecksum = calculateCRC32 payload in
            if actualChecksum \<noteq> expectedChecksum then Inl ChecksumMismatch
            else decodePayload opType payload)"

section \<open>Specification-side definitions for the protocol\<close>

text \<open>
  The parameter constraints of section 3 of the specification, in its own words: a dimension
  is present when it is given at all, and each present dimension lies in [200, 4000].
\<close>

fun present :: "int option \<Rightarrow> bool" where
  "present None = False"
| "present (Some n) = True"

fun present_in_range :: "int option \<Rightarrow> bool" where
  "present_in_range None = True"
| "present_in_range (Some n) = (200 \<le> n \<and> n \<le> 4000)"

fun constraints_sec3 :: "Operation \<Rightarrow> bool" where
  "constraints_sec3 (RotateOp d) = (d \<in> {90, 180, 270})"
| "constraints_sec3 (FlipOp h v) = True"
| "constraints_sec3 (ResizeOp w h) =
     ((present w \<or> present h) \<and> present_in_range w \<and> present_in_range h)"
| "constraints_sec3 (CompressOp q) = (10 \<le> q \<and> q \<le> 100)"

text \<open>
  The operation as the wire format and \<open>validate\<close> see it: a zero dimension of a resize
  counts as an absent one.
\<close>

fun absent_if_zero :: "Operation \<Rightarrow> Operation" where
  "absent_if_zero (ResizeOp w h) = ResizeOp (or_undefined (or_zero w)) (or_undefined (or_zero h))"
| "absent_if_zero op = op"

text \<open>
  The standard CRC-32 in the specification's words: reflected polynomial 0xEDB88320, one
  conditional shift per input bit, initial value 0xFFFFFFFF, final XOR 0xFFFFFFFF.
\<close>

definition crc32_bit_step :: "u32 \<Rightarrow> u32" where
  "crc32_bit_step c = (if bit c 0 then drop_bit 1 c XOR 0xEDB88320 else drop_bit 1 c)"

definition crc32_standard :: "byte list \<Rightarrow> int" where
  "crc32_standard bs =
     uint (foldl (\<lambda>c b. (crc32_bit_step ^^ 8) (c XOR ucast b)) 0xFFFFFFFF bs XOR 0xFFFFFFFF)"

text \<open>
  The header checks of the decode contract (section 4.5): length at least 12, version 1,
  the declared payload fits, and the CRC of the payload matches the stored one.
\<close>

definition header_checks :: "byte list \<Rightarrow> bool" where
  "header_checks data \<longleftrightarrow>
     12 \<le> int (length data) \<and> readUInt16LE data 0 = 1 \<and>
     readUInt32LE data 4 \<le> int (length data) - 12 \<and>
     calculateCRC32 (subarray data 12 (12 + readUInt32LE data 4)) = readUInt32LE data 8"

text \<open>Flipping bit \<open>i\<close> of a buffer (bit \<open>i mod 8\<close> of byte \<open>i div 8\<close>).\<close>

definition flip_bit :: "byte list \<Rightarrow> nat \<Rightarrow> byte list" where
  "flip_bit buf i = buf[i div 8 := (buf ! (i div 8)) XOR push_bit (i mod 8) 1]"

text \<open>
  Auxiliary notions for the proofs: the four little-endian bytes of a 32-bit value, the
  message that \<open>encode\<close> builds around a payload, and \<open>decode\<close> after the header fields
  have been read.
\<close>

definition u32_bytes :: "int \<Rightarrow> byte list" where
  "u32_bytes v = [word_of_int v, word_of_int (v div 2 ^ 8),
                  word_of_int (v div 2 ^ 16), word_of_int (v div 2 ^ 24)]"

definition frame :: "int \<Rightarrow> byte list \<Rightarrow> byte list" where
  "frame t p = [1, 0, word_of_int t, 0, word_of_int (int (length p)), 0, 0, 0]
                 @ u32_bytes (calculateCRC32 p) @ p"

definition decode_fields :: "int \<Rightarrow> int \<Rightarrow> int \<Rightarrow> int \<Rightarrow> byte list \<Rightarrow> error + Operation" where
  "decode_fields version opType payloadLen expectedChecksum rest =
     (if version \<noteq> 1 then Inl (UnsupportedVersion version)
      else if int (length rest) < payloadLen then Inl PayloadTruncated
      else if calculateCRC32 (take (nat payloadLen) rest) \<noteq> expectedChecksum
        then Inl ChecksumMismatch
      else decodePayload opType (take (nat payloadLen) rest))"

section \<open>Metadata store (database/PostgresClient.ts)\<close>

text \<open>
  The rows of the two tables. Identifiers, paths and mime types are strings; timestamps are
  natural numbers. The field names carry a prefix because the two interfaces share
  \<open>id\<close> and \<open>created_at\<close>.
\<close>

datatype OperationParams =
    Degrees int
  | Flags bool bool
  | Dimensions "int option" "int option"
  | Quality int

fun params :: "Operation \<Rightarrow> OperationParams" where
  "params (RotateOp d) = Degrees d"
| "params (FlipOp h v) = Flags h v"
| "params (ResizeOp w h) = Dimensions w h"
| "params (CompressOp q) = Quality q"

record ImageRecord =
  img_id :: string
  img_user_id :: string
  img_original_path :: string
  img_size_bytes :: int
  img_mime_type :: string
  img_created_at :: nat
  img_updated_at :: nat

record RevisionRecord =
  rev_id :: string
  rev_image_id :: string
  rev_parent_id :: "string option"
  rev_op_type :: int
  rev_op_params :: OperationParams
  rev_storage_path :: string
  rev_created_at :: nat

section \<open>The world the services act on\<close>

datatype Bucket = Raw | Results | Thumb

text \<open>
  The state outside the process: the two tables, the objects of the three buckets with
  their content type, the files of the local storage directory (one directory per
  bucket), the keys of the Redis cache, the service's \<open>statelessPathCache\<close>, the clock
  behind \<open>NOW()\<close> and \<open>new Date()\<close>, and the number of identifiers drawn so far.
  \<open>gcs_up\<close> and \<open>redis_up\<close> say whether the object store and the cache answer; a call
  to a service that is down rejects. The database is taken to be reachable.
\<close>

record World =
  images :: "ImageRecord list"
  revisions :: "RevisionRecord list"
  gcs :: "Bucket \<times> string \<Rightarrow> (byte list \<times> string) option"
  gcs_up :: bool
  local_files :: "Bucket \<times> string \<Rightarrow> byte list option"
  redis_keys :: "string set"
  redis_up :: bool
  statelessPathCache :: "string \<Rightarrow> string option"
  clock :: nat
  uuid_counter :: nat

text \<open>
  What the process is started with: the two environment switches
  (\<open>process.env.SKIP_DB_CHECK === 'true'\<close> and \<open>!process.env.GCP_PROJECT_ID\<close>), the
  codec library (\<open>None\<close> when it rejects), and the identifiers that \<open>uuidv4()\<close> and
  \<open>uuid_generate_v4()\<close> hand out, by draw number.
\<close>

record Env =
  SKIP_DB_CHECK :: bool
  USE_LOCAL_STORAGE :: bool
  sharp :: "Operation \<Rightarrow> byte list \<Rightarrow> byte list option"
  uuid_of :: "nat \<Rightarrow> string"

text \<open>\<open>SELECT * FROM images WHERE id = $1\<close>, then \<open>result.rows[0] || null\<close>.\<close>

definition getImage :: "World \<Rightarrow> string \<Rightarrow> ImageRecord option" where
  "getImage w imageId = find (\<lambda>i. img_id i = imageId) (images w)"

text \<open>
  \<open>ORDER BY created_at DESC LIMIT 1\<close>: a row with the greatest \<open>created_at\<close>. Among rows
  with equal timestamps SQL leaves the choice open; the model takes the first in table
  order.
\<close>

fun latest_of :: "RevisionRecord list \<Rightarrow> RevisionRecord option" where
  "latest_of [] = None"
| "latest_of (r # rs) =
     (case latest_of rs of
        None \<Rightarrow> Some r
      | Some m \<Rightarrow> if rev_created_at r < rev_created_at m then Some m else Some r)"

definition getLatestRevision :: "World \<Rightarrow> string \<Rightarrow> RevisionRecord option" where
  "getLatestRevision w imageId = latest_of (filter (\<lambda>r. rev_image_id r = imageId) (revisions w))"

definition getRevision :: "World \<Rightarrow> string \<Rightarrow> RevisionRecord option" where
  "getRevision w revisionId = find (\<lambda>r. rev_id r = revisionId) (revisions w)"

text \<open>
  \<open>INSERT INTO revisions ... RETURNING *\<close>: the database draws the row's id and stamps
  it with the current time; time moves on afterwards.
\<close>

definition createRevision ::
  "Env \<Rightarrow> World \<Rightarrow> string \<Rightarrow> string option \<Rightarrow> int \<Rightarrow> OperationParams \<Rightarrow> string
     \<Rightarrow> RevisionRecord \<times> World" where
  "createRevision env w imageId parentId opType opParams storagePath =
     (let row = \<lparr> rev_id = uuid_of env (uuid_counter w), rev_image_id = imageId,
                  rev_parent_id = parentId, rev_op_type = opType, rev_op_params = opParams,
                  rev_storage_path = storagePath, rev_created_at = clock w \<rparr>
      in (row, w\<lparr> revisions := revisions w @ [row],
                  uuid_counter := Suc (uuid_counter w), clock := Suc (clock w) \<rparr>))"

text \<open>
  \<open>withImageLock\<close>: BEGIN, lock the image row, run the callback, COMMIT; when the
  callback throws, ROLLBACK (the tables are as they were at BEGIN; objects, files and
  cache keys are outside the transaction) and throw again.
\<close>

definition withImageLock ::
  "World \<Rightarrow> (World \<Rightarrow> (error + 'a) \<times> World) \<Rightarrow> (error + 'a) \<times> World" where
  "withImageLock w callback =
     (case callback w of
        (Inr result, w') \<Rightarrow> (Inr result, w')
      | (Inl e, w') \<Rightarrow> (Inl e, w'\<lparr> images := images w, revisions := revisions w \<rparr>))"

section \<open>Object store (storage/CloudStorage.ts) and local files\<close>

text \<open>
  \<open>getExtension\<close> is \<open>map[mimeType] || 'bin'\<close> on an object literal with three keys.
  The lookup also finds what the literal inherits from \<open>Object.prototype\<close>; every such
  member is truthy, and the template string of the caller turns it into its text: the
  prototype object itself for \<open>__proto__\<close>, a native function for the other names.
\<close>

definition inherited_member_text :: "string \<Rightarrow> string option" where
  "inherited_member_text key =
     (if key = ''__proto__'' then Some ''[object Object]''
      else if key = ''constructor'' then Some ''function Object() { [native code] }''
      else if key \<in> set [''__defineGetter__'', ''__defineSetter__'', ''__lookupGetter__'',
                           ''__lookupSetter__'', ''hasOwnProperty'', ''isPrototypeOf'',
                           ''propertyIsEnumerable'', ''toLocaleString'', ''toString'',
                           ''valueOf'']
        then Some (''function '' @ key @ ''() { [native code] }'')
      else None)"

definition getExtension :: "string \<Rightarrow> string" where
  "getExtension mimeType =
     (if mimeType = ''image/jpeg'' then ''jpg''
      else if mimeType = ''image/png'' then ''png''
      else if mimeType = ''image/webp'' then ''webp''
      else (case inherited_member_text mimeType of
              Some text \<Rightarrow> text
            | None \<Rightarrow> ''bin''))"

definition uploadResult ::
  "World \<Rightarrow> string \<Rightarrow> string \<Rightarrow> byte list \<Rightarrow> string \<Rightarrow> (error + string) \<times> World" where
  "uploadResult w imageId revisionId buffer mimeType =
     (let ext = getExtension mimeType;
          path = imageId @ ''_'' @ revisionId @ ''.'' @ ext
      in if gcs_up w
         then (Inr path, w\<lparr> gcs := (gcs w)((Results, path) \<mapsto> (buffer, mimeType)) \<rparr>)
         else (Inl StorageError, w))"

definition download :: "World \<Rightarrow> Bucket \<Rightarrow> string \<Rightarrow> error + byte list" where
  "download w bucketType path =
     (if gcs_up w
      then (case gcs w (bucketType, path) of
              None \<Rightarrow> Inl StorageError
            | Some (buffer, contentType) \<Rightarrow> Inr buffer)
      else Inl StorageError)"

text \<open>
  \<open>path.basename\<close> (POSIX): trailing slashes are dropped first, then the result is what
  follows the last remaining slash; a path of slashes only gives the empty string.
\<close>

definition basename :: "string \<Rightarrow> string" where
  "basename p =
     rev (takeWhile (\<lambda>c. c \<noteq> CHR ''/'') (dropWhile (\<lambda>c. c = CHR ''/'') (rev p)))"

text \<open>
  \<open>fs.readFile\<close> and \<open>fs.writeFile\<close> on \<open>LOCAL_STORAGE_DIR/<bucket>/<name>\<close>; reading
  a file that is not there rejects.
\<close>

definition readFile :: "World \<Rightarrow> Bucket \<Rightarrow> string \<Rightarrow> error + byte list" where
  "readFile w bucket name =
     (case local_files w (bucket, name) of None \<Rightarrow> Inl StorageError | Some buffer \<Rightarrow> Inr buffer)"

definition writeFile :: "World \<Rightarrow> Bucket \<Rightarrow> string \<Rightarrow> byte list \<Rightarrow> World" where
  "writeFile w bucket name buffer = w\<lparr> local_files := (local_files w)((bucket, name) \<mapsto> buffer) \<rparr>"

section \<open>Cache (cache/RedisClient.ts)\<close>

definition invalidateThumbnail :: "World \<Rightarrow> string \<Rightarrow> (error + unit) \<times> World" where
  "invalidateThumbnail w imageId =
     (let key = ''thumb:'' @ imageId
      in if redis_up w then (Inr (), w\<lparr> redis_keys := redis_keys w - {key} \<rparr>)
         else (Inl CacheError, w))"

section \<open>Revision service (services/RevisionService.ts)\<close>

text \<open>
  \<open>sharp(sourceBuffer)\<close>, \<open>operation.toSharp(pipeline)\<close>, \<open>pipeline.toBuffer()\<close>:
  \<open>toSharp\<close> throws on an operation that does not validate, the codec may reject.
\<close>

definition run_pipeline :: "Env \<Rightarrow> Operation \<Rightarrow> byte list \<Rightarrow> error + byte list" where
  "run_pipeline env operation sourceBuffer =
     (if \<not> validate operation then Inl InvalidOperationParameters
      else case sharp env operation sourceBuffer of
             None \<Rightarrow> Inl CodecError
           | Some resultBuffer \<Rightarrow> Inr resultBuffer)"

text \<open>\<open>parent?.id || null\<close>: no parent and an empty id both give \<open>null\<close>.\<close>

fun parent_id_or_null :: "RevisionRecord option \<Rightarrow> string option" where
  "parent_id_or_null None = None"
| "parent_id_or_null (Some parent) = (if rev_id parent = [] then None else Some (rev_id parent))"

text \<open>The source of the transform: the latest revision's result, else the original.\<close>

fun sourcePath :: "ImageRecord \<Rightarrow> RevisionRecord option \<Rightarrow> string" where
  "sourcePath img None = img_original_path img"
| "sourcePath img (Some parent) = rev_storage_path parent"

fun sourceBucket :: "RevisionRecord option \<Rightarrow> Bucket" where
  "sourceBucket None = Raw"
| "sourceBucket (Some parent) = Results"

text \<open>The stateless branch of \<open>applyOp\<close> (\<open>SKIP_DB_CHECK\<close>).\<close>

definition applyOp_stateless ::
  "Env \<Rightarrow> string \<Rightarrow> Operation \<Rightarrow> World \<Rightarrow> (error + RevisionRecord) \<times> World" where
  "applyOp_stateless env imageId operation w =
     (let jpg = ''demo/'' @ imageId @ ''.jpg'';
          png = ''demo/'' @ imageId @ ''.png'';
          source = (case download w Raw jpg of
                      Inr buffer \<Rightarrow> Inr buffer
                    | Inl e \<Rightarrow> (case download w Raw png of
                                 Inr buffer \<Rightarrow> Inr buffer
                               | Inl e2 \<Rightarrow> download w Raw jpg))
      in case source of
           Inl e \<Rightarrow> (Inl e, w)
         | Inr sourceBuffer \<Rightarrow>
           (case run_pipeline env operation sourceBuffer of
              Inl e \<Rightarrow> (Inl e, w)
            | Inr resultBuffer \<Rightarrow>
              (let revisionId = uuid_of env (uuid_counter w);
                   w1 = w\<lparr> uuid_counter := Suc (uuid_counter w) \<rparr>
               in case uploadResult w1 imageId revisionId resultBuffer ''image/jpeg'' of
                    (Inl e, w2) \<Rightarrow> (Inl e, w2)
                  | (Inr resultPath, w2) \<Rightarrow>
                      (Inr \<lparr> rev_id = revisionId, rev_image_id = imageId, rev_parent_id = None,
                             rev_op_type = op_type operation, rev_op_params = params operation,
                             rev_storage_path = resultPath, rev_created_at = clock w2 \<rparr>,
                       w2\<lparr> statelessPathCache :=
                              (statelessPathCache w2)(revisionId \<mapsto> resultPath) \<rparr>))))"

text \<open>
  The two places where \<open>applyOp\<close> branches on \<open>USE_LOCAL_STORAGE\<close>: fetching the
  source bytes (from the local directory of the bucket, under the path's last component,
  or from the bucket itself), and storing the result (a local file whose extension is
  \<open>jpg\<close> for a JPEG image and \<open>png\<close> otherwise, or an object written by
  \<open>uploadResult\<close> with the image's mime type).
\<close>

definition fetchSource :: "Env \<Rightarrow> World \<Rightarrow> Bucket \<Rightarrow> string \<Rightarrow> error + byte list" where
  "fetchSource env w bucket path =
     (if USE_LOCAL_STORAGE env then readFile w bucket (basename path)
      else download w bucket path)"

definition storeResult ::
  "Env \<Rightarrow> World \<Rightarrow> ImageRecord \<Rightarrow> string \<Rightarrow> string \<Rightarrow> byte list \<Rightarrow> (error + string) \<times> World" where
  "storeResult env w img imageId revisionId resultBuffer =
     (if USE_LOCAL_STORAGE env
      then (let ext = (if img_mime_type img = ''image/jpeg'' then ''jpg'' else ''png'');
                name = imageId @ ''_'' @ revisionId @ ''.'' @ ext
            in (Inr (''local/'' @ name), writeFile w Results name resultBuffer))
      else uploadResult w imageId revisionId resultBuffer (img_mime_type img))"

text \<open>The callback that \<open>applyOp\<close> runs inside \<open>withImageLock\<close>.\<close>

definition applyOp_locked ::
  "Env \<Rightarrow> string \<Rightarrow> Operation \<Rightarrow> World \<Rightarrow> (error + RevisionRecord) \<times> World" where
  "applyOp_locked env imageId operation w =
     (case getImage w imageId of
        None \<Rightarrow> (Inl ImageNotFound, w)
      | Some img \<Rightarrow>
        (let parent = getLatestRevision w imageId
         in case fetchSource env w (sourceBucket parent) (sourcePath img parent) of
              Inl e \<Rightarrow> (Inl e, w)
            | Inr sourceBuffer \<Rightarrow>
              (case run_pipeline env operation sourceBuffer of
                 Inl e \<Rightarrow> (Inl e, w)
               | Inr resultBuffer \<Rightarrow>
                 (let revisionId = uuid_of env (uuid_counter w);
                      w1 = w\<lparr> uuid_counter := Suc (uuid_counter w) \<rparr>
                  in case storeResult env w1 img imageId revisionId resultBuffer of
                       (Inl e, w2) \<Rightarrow> (Inl e, w2)
                     | (Inr resultPath, w2) \<Rightarrow>
                       (case createRevision env w2 imageId (parent_id_or_null parent)
                               (op_type operation) (params operation) resultPath of
                          (revision, w3) \<Rightarrow>
                            (case invalidateThumbnail w3 imageId of
                               (Inl e, w4) \<Rightarrow> (Inl e, w4)
                             | (Inr u, w4) \<Rightarrow> (Inr revision, w4)))))))"

definition applyOp ::
  "Env \<Rightarrow> string \<Rightarrow> Operation \<Rightarrow> World \<Rightarrow> (error + RevisionRecord) \<times> World" where
  "applyOp env imageId operation w =
     (if \<not> validate operation then (Inl InvalidOperationParameters, w)
      else if SKIP_DB_CHECK env then applyOp_stateless env imageId operation w
      else withImageLock w (applyOp_locked env imageId operation))"

text \<open>\<open>undo\<close>; \<open>!current.parent_id\<close> holds for \<open>null\<close> and for the empty string.\<close>

definition undo :: "string \<Rightarrow> World \<Rightarrow> (error + RevisionRecord) \<times> World" where
  "undo imageId w =
     (case getLatestRevision w imageId of
        None \<Rightarrow> (Inl NoRevisionsToUndo, w)
      | Some current \<Rightarrow>
        (case rev_parent_id current of
           None \<Rightarrow> (Inl CannotUndoOriginal, w)
         | Some parentId \<Rightarrow>
           if parentId = [] then (Inl CannotUndoOriginal, w)
           else (case getRevision w parentId of
                   None \<Rightarrow> (Inl ParentRevisionNotFound, w)
                 | Some parent \<Rightarrow>
                     (case invalidateThumbnail w imageId of
                        (Inl e, w') \<Rightarrow> (Inl e, w')
                      | (Inr u, w') \<Rightarrow> (Inr parent, w')))))"

section \<open>Specification-side definitions for the services\<close>

text \<open>
  The bytes stored for a revision's result: the object at its storage path in the results
  bucket, or, with local storage, the file of the results directory named by what follows
  the \<open>local/\<close> prefix of the path.
\<close>

definition result_bytes :: "Env \<Rightarrow> World \<Rightarrow> RevisionRecord \<Rightarrow> byte list option" where
  "result_bytes env w revision =
     (if USE_LOCAL_STORAGE env
      then local_files w (Results, drop 6 (rev_storage_path revision))
      else map_option fst (gcs w (Results, rev_storage_path revision)))"

text \<open>
  A small world for the scenarios of the specification: one PNG image of three bytes in
  the raw bucket, a codec stand-in that reverses the bytes, and identifiers \<open>r\<close>,
  \<open>rr\<close>, \<open>rrr\<close>, ... for the draws. In \<open>edited_world\<close> the image has the two revisions of scenario b
  (rotate 90, then flip horizontal).
\<close>

definition example_env :: Env where
  "example_env = \<lparr> SKIP_DB_CHECK = False, USE_LOCAL_STORAGE = False,
                   sharp = (\<lambda>operation src. Some (rev src)),
                   uuid_of = (\<lambda>n. replicate (Suc n) CHR ''r'') \<rparr>"

definition example_image :: ImageRecord where
  "example_image = \<lparr> img_id = ''img'', img_user_id = ''user'',
                     img_original_path = ''user/img.png'', img_size_bytes = 3,
                     img_mime_type = ''image/png'', img_created_at = 0, img_updated_at = 0 \<rparr>"

definition fresh_world :: World where
  "fresh_world = \<lparr> images = [example_image], revisions = [],
                   gcs = [(Raw, ''user/img.png'') \<mapsto> ([1, 2, 3], ''image/png'')],
                   gcs_up = True, local_files = (\<lambda>k. None), redis_keys = {''thumb:img''},
                   redis_up = True, statelessPathCache = (\<lambda>k. None), clock = 1,
                   uuid_counter = 0 \<rparr>"

definition rev1 :: RevisionRecord where
  "rev1 = \<lparr> rev_id = ''rev1'', rev_image_id = ''img'', rev_parent_id = None,
            rev_op_type = 1, rev_op_params = Degrees 90, rev_storage_path = ''img_a.png'',
            rev_created_at = 1 \<rparr>"

definition rev2 :: RevisionRecord where
  "rev2 = \<lparr> rev_id = ''rev2'', rev_image_id = ''img'', rev_parent_id = Some ''rev1'',
            rev_op_type = 2, rev_op_params = Flags True False, rev_storage_path = ''img_b.png'',
            rev_created_at = 2 \<rparr>"

definition edited_world :: World where
  "edited_world = fresh_world
     \<lparr> revisions := [rev1, rev2],
       gcs := (gcs fresh_world)((Results, ''img_a.png'') \<mapsto> ([3, 2, 1], ''image/png''),
                                (Results, ''img_b.png'') \<mapsto> ([1, 2, 3], ''image/png'')),
       clock := 3 \<rparr>"

text \<open>
  Two more worlds for the source of a transform. In \<open>retouched_world\<close> the latest
  result holds bytes that differ from the original's. \<open>local_world\<close> is the same history
  kept in the local storage directory (\<open>local_env\<close> switches local storage on): the
  object store is empty and down, the storage paths carry the \<open>local/\<close> prefix.
\<close>

definition retouched_world :: World where
  "retouched_world = edited_world
     \<lparr> gcs := (gcs edited_world)((Results, ''img_b.png'') \<mapsto> ([9, 8, 7, 6], ''image/png'')) \<rparr>"

definition local_env :: Env where
  "local_env = example_env \<lparr> USE_LOCAL_STORAGE := True \<rparr>"

definition local_world :: World where
  "local_world = fresh_world
     \<lparr> images := [example_image \<lparr> img_original_path := ''local/user/img.png'' \<rparr>],
       revisions := [rev1 \<lparr> rev_storage_path := ''local/img_a.png'' \<rparr>,
                     rev2 \<lparr> rev_storage_path := ''local/img_b.png'' \<rparr>],
       gcs := (\<lambda>k. None), gcs_up := False,
       local_files := [(Raw, ''img.png'') \<mapsto> [1, 2, 3],
                       (Results, ''img_a.png'') \<mapsto> [3, 2, 1],
                       (Results, ''img_b.png'') \<mapsto> [5, 5, 4]],
       clock := 3 \<rparr>"

section \<open>Facts about the protocol\<close>

lemma crc_inner_8:
  "crc_inner 8 c = crc_shift (crc_shift (crc_shift (crc_shift
                     (crc_shift (crc_shift (crc_shift (crc_shift c)))))))"
  by (simp add: eval_nat_numeral)

lemma crc_shift_cases:
  "crc_shift c = (if odd c then drop_bit 1 c XOR 0xEDB88320 else drop_bit 1 c)"
proof (cases "odd c")
  case True
  then have "c AND 1 = 1" by (simp add: and_one_eq odd_iff_mod_2_eq_one)
  with True show ?thesis by (simp add: crc_shift_def)
next
  case False
  then have "c AND 1 = 0" by (simp add: and_one_eq even_iff_mod_2_eq_zero)
  with False show ?thesis by (simp add: crc_shift_def)
qed

lemma bit31_drop: "\<not> bit (drop_bit 1 (c :: u32)) 31"
proof
  assume "bit (drop_bit 1 c) 31"
  then have "bit c 32" by (simp add: bit_drop_bit_eq)
  then show False by (auto dest: bit_imp_le_length)
qed

lemma word_xor_right_cancel:
  fixes a b p :: "'a::len word"
  assumes "a XOR p = b XOR p"
  shows "a = b"
proof -
  have "(a XOR p) XOR p = (b XOR p) XOR p" using assms by simp
  then show ?thesis by (simp add: xor.assoc)
qed

lemma word_xor_left_cancel:
  fixes a b p :: "'a::len word"
  assumes "p XOR a = p XOR b"
  shows "a = b"
  using assms word_xor_right_cancel [of a p b] by (simp add: xor.commute)

lemma bit31_poly: "bit (0xEDB88320 :: u32) 31"
  by (simp add: bit_iff_odd_drop_bit)

lemma crc_shift_top: "bit (crc_shift c) 31 = odd c"
  using bit31_drop [of c] bit31_poly by (simp add: crc_shift_cases bit_xor_iff)

lemma word_parity_drop_eq:
  fixes a b :: u32
  assumes "odd a = odd b" "drop_bit 1 a = drop_bit 1 b"
  shows "a = b"
proof (rule bit_eqI)
  fix n
  show "bit a n = bit b n"
  proof (cases n)
    case 0
    then show ?thesis using assms(1) by (simp add: bit_0)
  next
    case (Suc m)
    have "bit (drop_bit 1 a) m = bit (drop_bit 1 b) m" using assms(2) by simp
    then show ?thesis using Suc by (simp add: bit_drop_bit_eq)
  qed
qed

lemma crc_shift_inj: "crc_shift a = crc_shift b \<Longrightarrow> a = b"
proof -
  assume eq: "crc_shift a = crc_shift b"
  have par: "odd a = odd b" using crc_shift_top [of a] crc_shift_top [of b] eq by simp
  have "drop_bit 1 a = drop_bit 1 b"
  proof (cases "odd a")
    case True
    with par eq have "drop_bit 1 a XOR 0xEDB88320 = drop_bit 1 b XOR 0xEDB88320"
      by (simp add: crc_shift_cases)
    then show ?thesis by (rule word_xor_right_cancel)
  next
    case False
    with par eq show ?thesis by (simp add: crc_shift_cases)
  qed
  with par show ?thesis by (rule word_parity_drop_eq)
qed

lemma crc_inner_inj: "crc_inner n a = crc_inner n b \<Longrightarrow> a = b"
proof (induction n arbitrary: a b)
  case 0
  then show ?case by simp
next
  case (Suc n)
  then have "crc_shift a = crc_shift b" by simp
  then show ?case by (rule crc_shift_inj)
qed

lemma crc_byte_inj_state: "crc_byte a x = crc_byte b x \<Longrightarrow> a = b"
  unfolding crc_byte_def by (blast dest: crc_inner_inj word_xor_right_cancel)

lemma ucast_byte_inj:
  assumes "(ucast (x :: byte) :: u32) = ucast y"
  shows "x = y"
proof -
  have "uint (ucast x :: u32) = uint (ucast y :: u32)" using assms by simp
  then have "uint x = uint y" by (simp add: uint_up_ucast is_up)
  then show ?thesis by (rule word_uint_eqI)
qed

lemma crc_byte_inj_byte: "crc_byte a x = crc_byte a y \<Longrightarrow> x = y"
  unfolding crc_byte_def by (blast dest: crc_inner_inj word_xor_left_cancel ucast_byte_inj)

lemma crc_loop_inj: "crc_loop bs a = crc_loop bs b \<Longrightarrow> a = b"
proof (induction bs arbitrary: a b)
  case Nil
  then show ?case by simp
next
  case (Cons x bs)
  then have "crc_byte a x = crc_byte b x" by simp
  then show ?case by (rule crc_byte_inj_state)
qed

lemma crc_loop_append: "crc_loop (xs @ ys) c = crc_loop ys (crc_loop xs c)"
  by (induction xs arbitrary: c) auto

lemma crc_loop_byte_change:
  assumes "x \<noteq> y"
  shows "crc_loop (pre @ x # post) c \<noteq> crc_loop (pre @ y # post) c"
proof
  assume "crc_loop (pre @ x # post) c = crc_loop (pre @ y # post) c"
  then have "crc_loop post (crc_byte (crc_loop pre c) x) = crc_loop post (crc_byte (crc_loop pre c) y)"
    by (simp add: crc_loop_append)
  then have "crc_byte (crc_loop pre c) x = crc_byte (crc_loop pre c) y" by (rule crc_loop_inj)
  then have "x = y" by (rule crc_byte_inj_byte)
  with assms show False by simp
qed

lemma calculateCRC32_byte_change:
  assumes "x \<noteq> y"
  shows "calculateCRC32 (pre @ x # post) \<noteq> calculateCRC32 (pre @ y # post)"
proof
  assume "calculateCRC32 (pre @ x # post) = calculateCRC32 (pre @ y # post)"
  then have "crc_loop (pre @ x # post) 0xFFFFFFFF XOR 0xFFFFFFFF
             = crc_loop (pre @ y # post) 0xFFFFFFFF XOR 0xFFFFFFFF"
    unfolding calculateCRC32_def by (rule word_uint_eqI)
  then have "crc_loop (pre @ x # post) 0xFFFFFFFF = crc_loop (pre @ y # post) 0xFFFFFFFF"
    by (rule word_xor_right_cancel)
  with crc_loop_byte_change [OF assms] show False by blast
qed

lemma decode_header:
  "decode (a0 # a1 # a2 # a3 # a4 # a5 # a6 # a7 # a8 # a9 # a10 # a11 # rest) =
     decode_fields (uint a0 + uint a1 * 2 ^ 8) (uint a2 + uint a3 * 2 ^ 8)
       (uint a4 + uint a5 * 2 ^ 8 + uint a6 * 2 ^ 16 + uint a7 * 2 ^ 24)
       (uint a8 + uint a9 * 2 ^ 8 + uint a10 * 2 ^ 16 + uint a11 * 2 ^ 24) rest"
  by (simp add: decode_def decode_fields_def Let_def HEADER_SIZE_def PROTOCOL_VERSION_def
      readUInt16LE_def readUInt32LE_def subarray_def)

lemma calculateCRC32_range: "0 \<le> calculateCRC32 p \<and> calculateCRC32 p \<le> 4294967295"
proof -
  have "uint (crc_loop p 0xFFFFFFFF XOR 0xFFFFFFFF) < 2 ^ 32"
    using uint_bounded [of "crc_loop p 0xFFFFFFFF XOR 0xFFFFFFFF"] by simp
  then show ?thesis by (simp add: calculateCRC32_def)
qed

lemma uint_byte_of_int: "uint (word_of_int v :: byte) = v mod 256"
  by (simp add: uint_word_of_int)

lemma u32_value:
  fixes v :: int
  assumes "0 \<le> v" "v \<le> 4294967295"
  shows "v mod 256 + (v div 2 ^ 8) mod 256 * 2 ^ 8 + (v div 2 ^ 16) mod 256 * 2 ^ 16
           + (v div 2 ^ 24) mod 256 * 2 ^ 24 = v"
proof -
  define a where "a = v div 256"
  define b where "b = a div 256"
  define c where "c = b div 256"
  have e1: "v div 2 ^ 8 = a" by (simp add: a_def)
  have e2: "v div 2 ^ 16 = b" by (simp add: b_def a_def zdiv_zmult2_eq [symmetric])
  have e3: "v div 2 ^ 24 = c" by (simp add: c_def b_def a_def zdiv_zmult2_eq [symmetric])
  have "0 \<le> c" "c < 256" using assms e3 [symmetric] by simp_all
  then have c: "c mod 256 = c" by simp
  have v1: "v = v mod 256 + 256 * a" by (simp add: a_def)
  have v2: "a = a mod 256 + 256 * b" by (simp add: b_def)
  have v3: "b = b mod 256 + 256 * c" by (simp add: c_def)
  have "v mod 256 + a mod 256 * 2 ^ 8 + b mod 256 * 2 ^ 16 + c * 2 ^ 24 = v"
    using v1 v2 v3 by simp
  then show ?thesis by (simp only: e1 e2 e3 c)
qed

lemma read32_written:
  assumes "0 \<le> v" "v \<le> 4294967295"
  shows "uint (word_of_int v :: byte) + uint (word_of_int (v div 2 ^ 8) :: byte) * 2 ^ 8
           + uint (word_of_int (v div 2 ^ 16) :: byte) * 2 ^ 16
           + uint (word_of_int (v div 2 ^ 24) :: byte) * 2 ^ 24 = v"
  using u32_value [OF assms] by (simp only: uint_byte_of_int)

lemma readUInt32LE_u32_bytes:
  assumes "0 \<le> v" "v \<le> 4294967295" "length pre = n"
  shows "readUInt32LE (pre @ u32_bytes v @ post) n = v"
  using read32_written [OF assms(1,2)] assms(3)
  by (auto simp: readUInt32LE_def u32_bytes_def nth_append)

lemma encodePayload_length:
  "encodePayload op = Inr p \<Longrightarrow> length p = (if op_type op = RESIZE then 8 else 1)"
  by (cases op)
     (auto simp: writeUInt8_def writeUInt32LE_def Let_def ROTATE_def FLIP_def RESIZE_def
        COMPRESS_def split: if_splits)

lemma encode_frame:
  "encode op = Inr b \<longleftrightarrow> (\<exists>p. encodePayload op = Inr p \<and> b = frame (op_type op) p)"
proof (cases "encodePayload op")
  case (Inl e)
  then show ?thesis by (simp add: encode_def)
next
  case (Inr p)
  have len: "length p = (if op_type op = RESIZE then 8 else 1)"
    using Inr by (rule encodePayload_length)
  have ty: "op_type op \<in> {1, 2, 3, 4}"
    by (cases op) (simp_all add: ROTATE_def FLIP_def RESIZE_def COMPRESS_def)
  have "encode op = Inr (frame (op_type op) p)"
    using Inr len ty calculateCRC32_range [of p]
    by (auto simp: encode_def frame_def u32_bytes_def Let_def writeUInt16LE_def
        writeUInt32LE_def PROTOCOL_VERSION_def)
  then show ?thesis using Inr by auto
qed

lemma uint_byte_small: "0 \<le> t \<Longrightarrow> t < 256 \<Longrightarrow> uint (word_of_int t :: byte) = t"
  by (simp add: uint_byte_of_int)

lemma decode_frame:
  assumes "0 \<le> t" "t < 256" "length p < 256"
  shows "decode (frame t p @ tail) = decodePayload t p"
proof -
  have crc: "uint (word_of_int (calculateCRC32 p) :: byte)
        + uint (word_of_int (calculateCRC32 p div 2 ^ 8) :: byte) * 2 ^ 8
        + uint (word_of_int (calculateCRC32 p div 2 ^ 16) :: byte) * 2 ^ 16
        + uint (word_of_int (calculateCRC32 p div 2 ^ 24) :: byte) * 2 ^ 24 = calculateCRC32 p"
    using calculateCRC32_range [of p] by (intro read32_written) auto
  have len: "uint (word_of_int (int (length p)) :: byte) = int (length p)"
    using assms(3) by (intro uint_byte_small) auto
  have ty: "uint (word_of_int t :: byte) = t"
    using assms by (intro uint_byte_small) auto
  show ?thesis
    unfolding frame_def u32_bytes_def append_Cons append_Nil decode_header
    by (simp only: crc len ty) (simp add: decode_fields_def)
qed

lemma length_u32_bytes: "length (u32_bytes v) = 4"
  by (simp add: u32_bytes_def)

lemma decodePayload_encodePayload:
  assumes "encodePayload op = Inr p"
  shows "decodePayload (op_type op) p = Inr (absent_if_zero op)"
proof (cases op)
  case (RotateOp d)
  then show ?thesis using assms
    by (auto simp: decodePayload_def writeUInt8_def readUInt8_def ROTATE_def uint_byte_of_int
        split: if_splits)
next
  case (FlipOp h v)
  then show ?thesis using assms
    by (cases h; cases v)
       (auto simp: decodePayload_def writeUInt8_def readUInt8_def ROTATE_def FLIP_def)
next
  case (ResizeOp w h)
  from assms ResizeOp have rw: "0 \<le> or_zero w" "or_zero w \<le> 4294967295"
    and rh: "0 \<le> or_zero h" "or_zero h \<le> 4294967295"
    and p: "p = [] @ u32_bytes (or_zero w) @ u32_bytes (or_zero h)"
    by (auto simp: writeUInt32LE_def u32_bytes_def split: if_splits)
  have r0: "readUInt32LE p 0 = or_zero w"
    using readUInt32LE_u32_bytes [OF rw, of "[]" 0 "u32_bytes (or_zero h)"] p by simp
  have r4: "readUInt32LE p 4 = or_zero h"
    using readUInt32LE_u32_bytes [OF rh, of "u32_bytes (or_zero w)" 4 "[]"] p
    by (simp add: length_u32_bytes)
  have "length p = 8" using p by (simp add: length_u32_bytes)
  then show ?thesis using ResizeOp r0 r4
    by (simp add: decodePayload_def ROTATE_def FLIP_def RESIZE_def)
next
  case (CompressOp q)
  then show ?thesis using assms
    by (auto simp: decodePayload_def writeUInt8_def readUInt8_def ROTATE_def FLIP_def
        RESIZE_def COMPRESS_def uint_byte_of_int split: if_splits)
qed

lemma op_type_range: "0 \<le> op_type op \<and> op_type op < 256"
  by (cases op) (simp_all add: ROTATE_def FLIP_def RESIZE_def COMPRESS_def)

lemma decode_encode_gen:
  assumes "encode op = Inr b"
  shows "decode (b @ tail) = Inr (absent_if_zero op)"
proof -
  from assms obtain p where p: "encodePayload op = Inr p" and b: "b = frame (op_type op) p"
    by (auto simp: encode_frame)
  have "length p < 256" using encodePayload_length [OF p] by (simp split: if_splits)
  then have "decode (b @ tail) = decodePayload (op_type op) p"
    unfolding b using op_type_range [of op] by (intro decode_frame) auto
  then show ?thesis using decodePayload_encodePayload [OF p] by simp
qed

lemmas eval_defs =
  crc_inner_8 crc_byte_def crc_shift_def calculateCRC32_def encode_def decode_def
  decodePayload_def subarray_def readUInt8_def readUInt16LE_def readUInt32LE_def
  writeUInt8_def writeUInt16LE_def writeUInt32LE_def PROTOCOL_VERSION_def HEADER_SIZE_def
  ROTATE_def FLIP_def RESIZE_def COMPRESS_def or_undefined_def

lemma readUInt32LE_append:
  "off + 3 < length b \<Longrightarrow> readUInt32LE (b @ t) off = readUInt32LE b off"
  by (simp add: readUInt32LE_def nth_append)

lemma readUInt16LE_append:
  "off + 1 < length b \<Longrightarrow> readUInt16LE (b @ t) off = readUInt16LE b off"
  by (simp add: readUInt16LE_def nth_append)

lemma subarray_append:
  assumes "0 \<le> s" "s \<le> e" "e \<le> int (length b)"
  shows "subarray (b @ t) s e = subarray b s e"
  using assms by (simp add: subarray_def)

text \<open>
  Claim C10. \<open>decode\<close> ignores bytes beyond the declared payload: whenever \<open>decode\<close>
  succeeds on a buffer \<open>b\<close>, it succeeds on \<open>b\<close> followed by any byte sequence \<open>t\<close> and
  returns the same operation, since it reads only the 12-byte header and the first
  \<open>payload_len\<close> payload bytes and its length checks are lower bounds.
\<close>

theorem decode_ignores_trailing_bytes:
  assumes "decode b = Inr op"
  shows "decode (b @ t) = Inr op"
proof -
  from assms have len: "12 \<le> length b"
    by (auto simp: decode_def HEADER_SIZE_def split: if_splits)
  have r0: "readUInt16LE (b @ t) 0 = readUInt16LE b 0"
    and r2: "readUInt16LE (b @ t) 2 = readUInt16LE b 2"
    and r4: "readUInt32LE (b @ t) 4 = readUInt32LE b 4"
    and r8: "readUInt32LE (b @ t) 8 = readUInt32LE b 8"
    using len by (simp_all add: readUInt16LE_append readUInt32LE_append)
  have nonneg: "0 \<le> readUInt32LE b 4" by (simp add: readUInt32LE_def)
  from assms len have fits: "HEADER_SIZE + readUInt32LE b 4 \<le> int (length b)"
    by (auto simp: decode_def Let_def HEADER_SIZE_def split: if_splits)
  have sub: "subarray (b @ t) HEADER_SIZE (HEADER_SIZE + readUInt32LE b 4)
               = subarray b HEADER_SIZE (HEADER_SIZE + readUInt32LE b 4)"
    using fits nonneg by (intro subarray_append) (auto simp: HEADER_SIZE_def)
  have "decode (b @ t) = decode b"
    using len fits unfolding decode_def r0 r2 r4 r8 sub Let_def
    by (auto simp: HEADER_SIZE_def)
  with assms show ?thesis by simp
qed

text \<open>The statement at a ROTATE 90 message followed by three stray bytes.\<close>

theorem decode_ignores_trailing_bytes_witness:
  "decode [1, 0, 1, 0, 1, 0, 0, 0, 103, 87, 188, 89, 90] = Inr (RotateOp 90) \<and>
   decode ([1, 0, 1, 0, 1, 0, 0, 0, 103, 87, 188, 89, 90] @ [7, 7, 7]) = Inr (RotateOp 90)"
proof -
  have h: "decode [1, 0, 1, 0, 1, 0, 0, 0, 103, 87, 188, 89, 90] = Inr (RotateOp 90)"
    by (simp add: eval_defs)
  show ?thesis using h decode_ignores_trailing_bytes [OF h, of "[7, 7, 7]"] by simp
qed

lemma crc_shift_standard: "crc_shift c = crc32_bit_step c"
  by (simp add: crc_shift_cases crc32_bit_step_def bit_0)

lemma crc_inner_funpow: "crc_inner n c = (crc32_bit_step ^^ n) c"
  by (induction n arbitrary: c) (simp_all add: crc_shift_standard funpow_swap1)

lemma crc_loop_foldl:
  "crc_loop bs c = foldl (\<lambda>c b. (crc32_bit_step ^^ 8) (c XOR ucast b)) c bs"
  by (induction bs arbitrary: c) (simp_all add: crc_byte_def crc_inner_funpow)

text \<open>
  Claim C8. For every byte sequence \<open>data\<close>, \<open>calculateCRC32\<close> computes the standard
  CRC-32 (reflected polynomial 0xEDB88320, initial value 0xFFFFFFFF, final XOR 0xFFFFFFFF);
  and in every message that \<open>encode\<close> produces, the bytes after the 12-byte header are the
  payload and the checksum field at offset 8 holds the CRC-32 of that payload only.
\<close>

theorem calculateCRC32_is_standard_crc32:
  assumes "encode op = Inr b"
  shows "calculateCRC32 data = crc32_standard data \<and>
         encodePayload op = Inr (drop 12 b) \<and>
         readUInt32LE b 8 = crc32_standard (drop 12 b)"
proof -
  have std: "\<And>xs. calculateCRC32 xs = crc32_standard xs"
    by (simp add: calculateCRC32_def crc32_standard_def crc_loop_foldl)
  from assms obtain p where p: "encodePayload op = Inr p" and b: "b = frame (op_type op) p"
    by (auto simp: encode_frame)
  have d: "drop 12 b = p" by (simp add: b frame_def u32_bytes_def)
  have "readUInt32LE b 8 = calculateCRC32 p"
    using readUInt32LE_u32_bytes [of "calculateCRC32 p"
        "[1, 0, word_of_int (op_type op), 0, word_of_int (int (length p)), 0, 0, 0]" 8 p]
      calculateCRC32_range [of p]
    by (simp add: b frame_def)
  then show ?thesis using std p d by simp
qed

text \<open>
  The statement at the RESIZE(800, absent) message of scenario f and at the usual check
  input "123456789", whose CRC-32 is 0xCBF43926.
\<close>

theorem calculateCRC32_is_standard_crc32_witness:
  "encode (ResizeOp (Some 800) None)
     = Inr [1, 0, 3, 0, 8, 0, 0, 0, 162, 167, 188, 173, 32, 3, 0, 0, 0, 0, 0, 0] \<and>
   calculateCRC32 [0x31, 0x32, 0x33, 0x34, 0x35, 0x36, 0x37, 0x38, 0x39] = 0xCBF43926 \<and>
   crc32_standard [0x31, 0x32, 0x33, 0x34, 0x35, 0x36, 0x37, 0x38, 0x39] = 0xCBF43926 \<and>
   crc32_standard [32, 3, 0, 0, 0, 0, 0, 0] = 0xADBCA7A2"
proof -
  have h: "encode (ResizeOp (Some 800) None)
     = Inr [1, 0, 3, 0, 8, 0, 0, 0, 162, 167, 188, 173, 32, 3, 0, 0, 0, 0, 0, 0]"
    by (simp add: eval_defs)
  have c: "calculateCRC32 [0x31, 0x32, 0x33, 0x34, 0x35, 0x36, 0x37, 0x38, 0x39] = 0xCBF43926"
    by (simp add: eval_defs)
  show ?thesis
    using h c calculateCRC32_is_standard_crc32 [OF h,
        of "[0x31, 0x32, 0x33, 0x34, 0x35, 0x36, 0x37, 0x38, 0x39]"]
    by (simp add: readUInt32LE_def)
qed

text \<open>
  Claim C7 as stated fails for a resize with a zero dimension: \<open>new ResizeOp(0, 500)\<close>
  passes \<open>validate()\<close> although its width is present and outside [200, 4000].
\<close>

theorem validate_zero_dimension_counterexample:
  "validate (ResizeOp (Some 0) (Some 500)) \<and> \<not> constraints_sec3 (ResizeOp (Some 0) (Some 500))"
  by simp

text \<open>
  Claim C7, amended. For every operation, \<open>validate()\<close> returns true exactly when the
  section 3 constraints hold of the operation with every zero resize dimension read as an
  absent one: ROTATE degrees in {90, 180, 270}; FLIP always; RESIZE with at least one
  non-zero dimension given and each non-zero dimension in [200, 4000]; COMPRESS quality in
  [10, 100].
\<close>

theorem validate_iff_constraints_zero_absent:
  "validate op = constraints_sec3 (absent_if_zero op)"
proof (cases op)
  case (ResizeOp w h)
  then show ?thesis
    by (cases w; cases h) (auto simp: or_undefined_def)
qed simp_all

text \<open>The statement at a resize with a zero width and at one with both dimensions.\<close>

theorem validate_iff_constraints_zero_absent_witness:
  "validate (ResizeOp (Some 0) (Some 500))
     = constraints_sec3 (absent_if_zero (ResizeOp (Some 0) (Some 500))) \<and>
   validate (ResizeOp (Some 800) (Some 100))
     = constraints_sec3 (absent_if_zero (ResizeOp (Some 800) (Some 100)))"
  using validate_iff_constraints_zero_absent [of "ResizeOp (Some 0) (Some 500)"]
    validate_iff_constraints_zero_absent [of "ResizeOp (Some 800) (Some 100)"]
  by simp

text \<open>
  Claim C1 (round trip \<open>decode(encode(op)) = op\<close> for every valid op) fails at the valid
  operation ROTATE 270: the one-byte payload cannot hold 270, so \<open>writeUInt8\<close> throws and
  \<open>encode\<close> produces no message at all.
\<close>

theorem encode_rotate_270_throws:
  "validate (RotateOp 270) \<and> encode (RotateOp 270) = Inl RangeError"
  by (simp add: encode_def writeUInt8_def)

text \<open>
  Claim C3 as stated fails: a ROTATE message with payload byte 45 passes every header check
  and \<open>decode\<close> returns the out-of-range operation instead of failing.
\<close>

theorem decode_returns_out_of_range_counterexample:
  "header_checks [1, 0, 1, 0, 1, 0, 0, 0, 248, 179, 221, 151, 45] \<and>
   decode [1, 0, 1, 0, 1, 0, 0, 0, 248, 179, 221, 151, 45] = Inr (RotateOp 45) \<and>
   \<not> validate (RotateOp 45)"
  by (simp add: header_checks_def eval_defs)

lemma subarray_nth:
  "0 \<le> s \<Longrightarrow> int k < e - s \<Longrightarrow> e \<le> int (length b) \<Longrightarrow> subarray b s e ! k = b ! (nat s + k)"
  by (simp add: subarray_def)

lemma length_subarray:
  "0 \<le> s \<Longrightarrow> s \<le> e \<Longrightarrow> e \<le> int (length b) \<Longrightarrow> length (subarray b s e) = nat (e - s)"
  by (simp add: subarray_def)

lemma readUInt32LE_subarray:
  assumes "0 \<le> s" "int off + 3 < e - s" "e \<le> int (length b)"
  shows "readUInt32LE (subarray b s e) off = readUInt32LE b (nat s + off)"
  using assms by (simp add: readUInt32LE_def subarray_def ac_simps)

text \<open>
  Claim C3, amended. For every input buffer that passes the IEv1 header checks and declares
  at least one payload byte, \<open>decode\<close> applies no range validation: it returns the
  operation built from the raw payload (ROTATE and COMPRESS from the first payload byte
  whatever its value, FLIP from its bits 0 and 1, RESIZE from the two 32-bit fields with
  zero read as absent) and fails only for a RESIZE payload shorter than 8 bytes or an
  op_type outside 1..4.
\<close>

theorem decode_applies_no_range_validation:
  assumes "header_checks data" and "1 \<le> readUInt32LE data 4"
  shows "decode data =
     (let t = readUInt16LE data 2 in
      if t = ROTATE then Inr (RotateOp (readUInt8 data 12))
      else if t = FLIP then
        Inr (FlipOp (readUInt8 data 12 AND 1 \<noteq> 0) (readUInt8 data 12 AND 2 \<noteq> 0))
      else if t = RESIZE then
        (if readUInt32LE data 4 < 8 then Inl InvalidResizePayload
         else Inr (ResizeOp (or_undefined (readUInt32LE data 12))
                            (or_undefined (readUInt32LE data 16))))
      else if t = COMPRESS then Inr (CompressOp (readUInt8 data 12))
      else Inl (UnknownOperationType t))"
proof -
  define pl where "pl = readUInt32LE data 4"
  define payload where "payload = subarray data 12 (12 + pl)"
  from assms have len: "12 \<le> int (length data)" and ver: "readUInt16LE data 0 = 1"
    and fits: "12 + pl \<le> int (length data)"
    and crc: "calculateCRC32 payload = readUInt32LE data 8" and pl1: "1 \<le> pl"
    by (simp_all add: header_checks_def pl_def payload_def)
  have dec: "decode data = decodePayload (readUInt16LE data 2) payload"
    using len ver fits crc
    by (simp add: decode_def Let_def HEADER_SIZE_def PROTOCOL_VERSION_def pl_def payload_def)
  have plen: "length payload = nat pl"
    unfolding payload_def using fits pl1 by (subst length_subarray) auto
  have nth: "\<And>k. int k < pl \<Longrightarrow> payload ! k = data ! (12 + k)"
    unfolding payload_def using fits by (subst subarray_nth) auto
  have b0: "readUInt8 payload 0 = readUInt8 data 12"
    using nth [of 0] pl1 by (simp add: readUInt8_def)
  have w0: "8 \<le> pl \<Longrightarrow> readUInt32LE payload 0 = readUInt32LE data 12"
    unfolding payload_def using fits by (subst readUInt32LE_subarray) auto
  have w4: "8 \<le> pl \<Longrightarrow> readUInt32LE payload 4 = readUInt32LE data 16"
    unfolding payload_def using fits by (subst readUInt32LE_subarray) auto
  have l1: "\<not> length payload < 1" using plen pl1 by simp
  have l8: "length payload < 8 \<longleftrightarrow> pl < 8" using plen pl1 by auto
  show ?thesis
    unfolding dec decodePayload_def Let_def pl_def [symmetric]
    using b0 w0 w4 l1 l8 by auto
qed

text \<open>The statement at the ROTATE message carrying 45.\<close>

theorem decode_applies_no_range_validation_witness:
  "header_checks [1, 0, 1, 0, 1, 0, 0, 0, 248, 179, 221, 151, 45] \<and>
   1 \<le> readUInt32LE [1, 0, 1, 0, 1, 0, 0, 0, 248, 179, 221, 151, 45] 4 \<and>
   decode [1, 0, 1, 0, 1, 0, 0, 0, 248, 179, 221, 151, 45] = Inr (RotateOp 45)"
proof -
  have h: "header_checks [1, 0, 1, 0, 1, 0, 0, 0, 248, 179, 221, 151, 45]"
    by (simp add: header_checks_def eval_defs)
  have l: "1 \<le> readUInt32LE [1, 0, 1, 0, 1, 0, 0, 0, 248, 179, 221, 151, 45] 4"
    by (simp add: readUInt32LE_def)
  show ?thesis
    using h l decode_applies_no_range_validation [OF h l]
    by (simp add: readUInt16LE_def readUInt8_def ROTATE_def)
qed

lemma decode_fields_version:
  "V \<noteq> 1 \<Longrightarrow> \<exists>e. decode_fields V T L E rest = Inl e"
  by (simp add: decode_fields_def)

lemma decode_fields_truncated:
  "int (length rest) < L \<Longrightarrow> \<exists>e. decode_fields V T L E rest = Inl e"
  by (simp add: decode_fields_def)

lemma decode_fields_checksum:
  "calculateCRC32 (take (nat L) rest) \<noteq> E \<Longrightarrow> \<exists>e. decode_fields V T L E rest = Inl e"
  by (simp add: decode_fields_def)

lemma decode_fields_payload:
  "\<exists>e. decodePayload T (take (nat L) rest) = Inl e \<Longrightarrow> \<exists>e. decode_fields V T L E rest = Inl e"
  by (auto simp: decode_fields_def)

lemma decode_fields_ok:
  "int (length rest) = L \<Longrightarrow> calculateCRC32 rest = E \<Longrightarrow>
   decode_fields 1 T L E rest = decodePayload T rest"
  by (auto simp: decode_fields_def)

lemma byte_xor_ne: "(m :: byte) \<noteq> 0 \<Longrightarrow> x XOR m \<noteq> x"
proof
  assume m: "m \<noteq> 0" and "x XOR m = x"
  then have "x XOR m = x XOR 0" by simp
  then have "m = 0" by (rule word_xor_left_cancel)
  with m show False by simp
qed

lemma uint_xor_ne: "(m :: byte) \<noteq> 0 \<Longrightarrow> uint (x XOR m) \<noteq> uint x"
  using byte_xor_ne [of m x] by (auto dest: word_uint_eqI)

lemma uint_byte_pos: "(m :: byte) \<noteq> 0 \<Longrightarrow> 1 \<le> uint m"
proof -
  assume "m \<noteq> 0"
  then have "uint m \<noteq> uint (0 :: byte)" by (blast dest: word_uint_eqI)
  then have "uint m \<noteq> 0" by simp
  moreover have "0 \<le> uint m" by simp
  ultimately show ?thesis by linarith
qed

lemma list_update_Cons_numeral:
  "(x # xs)[numeral n := y] = x # xs[pred_numeral n := y]"
  by (simp add: numeral_eq_Suc)

lemma frame_cons:
  "frame t p = 1 # 0 # word_of_int t # 0 # word_of_int (int (length p)) # 0 # 0 # 0 #
     word_of_int (calculateCRC32 p) # word_of_int (calculateCRC32 p div 2 ^ 8) #
     word_of_int (calculateCRC32 p div 2 ^ 16) # word_of_int (calculateCRC32 p div 2 ^ 24) # p"
  by (simp add: frame_def u32_bytes_def)

lemma crc_bytes_value:
  "uint (word_of_int (calculateCRC32 p) :: byte)
     + uint (word_of_int (calculateCRC32 p div 2 ^ 8) :: byte) * 2 ^ 8
     + uint (word_of_int (calculateCRC32 p div 2 ^ 16) :: byte) * 2 ^ 16
     + uint (word_of_int (calculateCRC32 p div 2 ^ 24) :: byte) * 2 ^ 24 = calculateCRC32 p"
  using calculateCRC32_range [of p] by (intro read32_written) auto

lemma frame_bytes:
  assumes "0 \<le> t" "t < 256" "length p < 256"
  obtains tb lb c0 c1 c2 c3 :: byte where
    "frame t p = 1 # 0 # tb # 0 # lb # 0 # 0 # 0 # c0 # c1 # c2 # c3 # p"
    "tb = word_of_int t" "uint tb = t"
    "lb = word_of_int (int (length p))" "uint lb = int (length p)"
    "uint c0 + uint c1 * 256 + uint c2 * 65536 + uint c3 * 16777216 = calculateCRC32 p"
proof -
  have "uint (word_of_int t :: byte) = t" using assms by (intro uint_byte_small) auto
  moreover have "uint (word_of_int (int (length p)) :: byte) = int (length p)"
    using assms by (intro uint_byte_small) auto
  moreover have "uint (word_of_int (calculateCRC32 p) :: byte)
     + uint (word_of_int (calculateCRC32 p div 2 ^ 8) :: byte) * 256
     + uint (word_of_int (calculateCRC32 p div 2 ^ 16) :: byte) * 65536
     + uint (word_of_int (calculateCRC32 p div 2 ^ 24) :: byte) * 16777216 = calculateCRC32 p"
    using crc_bytes_value [of p] by simp
  ultimately show ?thesis using that frame_cons [of t p] by blast
qed

lemma decode_header_num:
  "decode (a0 # a1 # a2 # a3 # a4 # a5 # a6 # a7 # a8 # a9 # a10 # a11 # rest) =
     decode_fields (uint a0 + uint a1 * 256) (uint a2 + uint a3 * 256)
       (uint a4 + uint a5 * 256 + uint a6 * 65536 + uint a7 * 16777216)
       (uint a8 + uint a9 * 256 + uint a10 * 65536 + uint a11 * 16777216) rest"
  by (simp add: decode_header)

text \<open>Positions 0 and 1: the version field.\<close>

lemma tamper_version:
  assumes "m \<noteq> 0" "k = 0 \<or> k = 1" "0 \<le> t" "t < 256" "length p < 256"
  shows "\<exists>e. decode ((frame t p)[k := frame t p ! k XOR m]) = Inl e"
proof -
  from assms(3-5) obtain tb lb c0 c1 c2 c3 :: byte where
    fr: "frame t p = 1 # 0 # tb # 0 # lb # 0 # 0 # 0 # c0 # c1 # c2 # c3 # p"
    by (rule frame_bytes)
  have "uint (1 XOR m) \<noteq> 1" using uint_xor_ne [OF assms(1), of 1] by simp
  moreover have "1 + uint m * 256 \<noteq> 1" using uint_byte_pos [OF assms(1)] by simp
  ultimately show ?thesis using assms(2)
    unfolding fr by (auto simp: decode_header_num intro!: decode_fields_version)
qed

text \<open>Positions 8 to 11: the stored checksum.\<close>

lemma tamper_checksum:
  assumes "m \<noteq> 0" "k = 8 \<or> k = 9 \<or> k = 10 \<or> k = 11" "0 \<le> t" "t < 256" "length p < 256"
  shows "\<exists>e. decode ((frame t p)[k := frame t p ! k XOR m]) = Inl e"
proof -
  from assms(3-5) obtain tb lb c0 c1 c2 c3 :: byte where
    fr: "frame t p = 1 # 0 # tb # 0 # lb # 0 # 0 # 0 # c0 # c1 # c2 # c3 # p"
    and len: "uint lb = int (length p)"
    and sum: "uint c0 + uint c1 * 256 + uint c2 * 65536 + uint c3 * 16777216 = calculateCRC32 p"
    by (rule frame_bytes)
  have n0: "uint (c0 XOR m) \<noteq> uint c0" and n1: "uint (c1 XOR m) \<noteq> uint c1"
    and n2: "uint (c2 XOR m) \<noteq> uint c2" and n3: "uint (c3 XOR m) \<noteq> uint c3"
    using assms(1) by (simp_all add: uint_xor_ne)
  have e0: "calculateCRC32 p \<noteq> uint (c0 XOR m) + uint c1 * 256 + uint c2 * 65536 + uint c3 * 16777216"
    using sum n0 by simp
  have e1: "calculateCRC32 p \<noteq> uint c0 + uint (c1 XOR m) * 256 + uint c2 * 65536 + uint c3 * 16777216"
    using sum n1 by simp
  have e2: "calculateCRC32 p \<noteq> uint c0 + uint c1 * 256 + uint (c2 XOR m) * 65536 + uint c3 * 16777216"
    using sum n2 by simp
  have e3: "calculateCRC32 p \<noteq> uint c0 + uint c1 * 256 + uint c2 * 65536 + uint (c3 XOR m) * 16777216"
    using sum n3 by simp
  show ?thesis using assms(2) e0 e1 e2 e3
    unfolding fr
    by (auto simp: decode_header_num list_update_Cons_numeral len intro!: decode_fields_checksum)
qed

text \<open>Positions 3 and 5 to 7: the high bytes of op_type and payload_len.\<close>

lemma decodePayload_unknown:
  "256 \<le> T \<Longrightarrow> decodePayload T p = Inl (UnknownOperationType T)"
  by (simp add: decodePayload_def ROTATE_def FLIP_def RESIZE_def COMPRESS_def)

lemma tamper_op_type_high:
  assumes "m \<noteq> 0" "k = 3" "0 \<le> t" "t < 256" "length p < 256"
  shows "\<exists>e. decode ((frame t p)[k := frame t p ! k XOR m]) = Inl e"
proof -
  from assms(3-5) obtain tb lb c0 c1 c2 c3 :: byte where
    fr: "frame t p = 1 # 0 # tb # 0 # lb # 0 # 0 # 0 # c0 # c1 # c2 # c3 # p"
    and ty: "uint tb = t"
    by (rule frame_bytes)
  have "256 \<le> t + uint m * 256" using uint_byte_pos [OF assms(1)] assms(3) by simp
  then have "\<exists>e. decodePayload (t + uint m * 256) q = Inl e" for q
    by (simp add: decodePayload_unknown)
  then show ?thesis using assms(2)
    unfolding fr
    by (auto simp: decode_header_num list_update_Cons_numeral ty intro!: decode_fields_payload)
qed

lemma tamper_payload_len_high:
  assumes "m \<noteq> 0" "k = 5 \<or> k = 6 \<or> k = 7" "0 \<le> t" "t < 256" "length p < 256"
  shows "\<exists>e. decode ((frame t p)[k := frame t p ! k XOR m]) = Inl e"
proof -
  from assms(3-5) obtain tb lb c0 c1 c2 c3 :: byte where
    fr: "frame t p = 1 # 0 # tb # 0 # lb # 0 # 0 # 0 # c0 # c1 # c2 # c3 # p"
    and len: "uint lb = int (length p)"
    by (rule frame_bytes)
  have pos: "1 \<le> uint m" using uint_byte_pos [OF assms(1)] .
  show ?thesis using assms(2) pos
    unfolding fr
    by (auto simp: decode_header_num list_update_Cons_numeral len intro!: decode_fields_truncated)
qed

lemma decode_fields_zero_len: "\<exists>e. decode_fields V T 0 E rest = Inl e"
  by (simp add: decode_fields_def decodePayload_def)

lemma bit_mask_cases:
  assumes "j < 8"
  shows "push_bit j (1 :: byte) \<in> {1, 2, 4, 8, 16, 32, 64, 128}"
proof -
  from assms have "j = 0 \<or> j = 1 \<or> j = 2 \<or> j = 3 \<or> j = 4 \<or> j = 5 \<or> j = 6 \<or> j = 7"
    by arith
  then show ?thesis by (elim disjE) simp_all
qed

text \<open>Position 4: the low byte of payload_len.\<close>

lemma tamper_payload_len_low:
  assumes "m \<in> {1, 2, 4, 8, 16, 32, 64, 128}" "k = 4" "0 \<le> t" "t < 256"
    "length p = 1 \<or> length p = 8"
  shows "\<exists>e. decode ((frame t p)[k := frame t p ! k XOR m]) = Inl e"
proof -
  have "length p < 256" using assms(5) by auto
  with assms(3,4) obtain tb lb c0 c1 c2 c3 :: byte where
    fr: "frame t p = 1 # 0 # tb # 0 # lb # 0 # 0 # 0 # c0 # c1 # c2 # c3 # p"
    and lb: "lb = word_of_int (int (length p))"
    by (rule frame_bytes)
  have "uint (lb XOR m) = 0 \<or> int (length p) < uint (lb XOR m)"
    using assms(1,5) unfolding lb by auto
  then have "\<exists>e. decode_fields V T (uint (lb XOR m)) E p = Inl e" for V T E
    using decode_fields_zero_len [of V T E p] decode_fields_truncated [of p "uint (lb XOR m)" V T E]
    by auto
  then show ?thesis using assms(2)
    unfolding fr by (simp add: decode_header_num list_update_Cons_numeral)
qed

text \<open>Position 12 and beyond: the payload.\<close>

lemma tamper_payload:
  assumes "m \<noteq> 0" "12 \<le> k" "k < 12 + length p" "0 \<le> t" "t < 256" "length p < 256"
  shows "\<exists>e. decode ((frame t p)[k := frame t p ! k XOR m]) = Inl e"
proof -
  define j where "j = k - 12"
  have k: "k = 12 + j" and j: "j < length p" using assms(2,3) by (simp_all add: j_def)
  define H where "H = [1, 0, word_of_int t, 0, word_of_int (int (length p)), 0, 0, 0]
                        @ u32_bytes (calculateCRC32 p)"
  have lenH: "length H = 12" by (simp add: H_def length_u32_bytes)
  have fH: "frame t p = H @ p" by (simp add: frame_def H_def)
  define p' where "p' = p[j := p ! j XOR m]"
  have upd: "(frame t p)[k := frame t p ! k XOR m] = H @ p'"
    unfolding fH k p'_def using lenH by (simp add: list_update_append nth_append)
  from assms(4-6) obtain tb lb c0 c1 c2 c3 :: byte where
    fr: "frame t p = 1 # 0 # tb # 0 # lb # 0 # 0 # 0 # c0 # c1 # c2 # c3 # p"
    and len: "uint lb = int (length p)"
    and sum: "uint c0 + uint c1 * 256 + uint c2 * 65536 + uint c3 * 16777216 = calculateCRC32 p"
    by (rule frame_bytes)
  have "H @ p = 1 # 0 # tb # 0 # lb # 0 # 0 # 0 # c0 # c1 # c2 # c3 # p"
    using fr fH by simp
  then have H: "H = [1, 0, tb, 0, lb, 0, 0, 0, c0, c1, c2, c3]" using lenH by simp
  have p1: "p = take j p @ p ! j # drop (Suc j) p" using j by (rule id_take_nth_drop)
  have p2: "p' = take j p @ (p ! j XOR m) # drop (Suc j) p"
    unfolding p'_def using j by (rule upd_conv_take_nth_drop)
  have "calculateCRC32 (take j p @ (p ! j XOR m) # drop (Suc j) p)
          \<noteq> calculateCRC32 (take j p @ p ! j # drop (Suc j) p)"
    using byte_xor_ne [OF assms(1), of "p ! j"] by (intro calculateCRC32_byte_change)
  then have crc: "calculateCRC32 p' \<noteq> calculateCRC32 p" using p1 p2 by simp
  have lp: "length p' = length p" by (simp add: p'_def)
  have "\<exists>e. decode (H @ p') = Inl e"
    unfolding H using crc lp
    by (auto simp: decode_header_num len sum intro!: decode_fields_checksum)
  then show ?thesis unfolding upd .
qed

text \<open>Position 2: the low byte of op_type, the one place where a flipped bit can go unnoticed.\<close>

lemma decodePayload_one_byte:
  "length p = 1 \<Longrightarrow> T \<noteq> 1 \<Longrightarrow> T \<noteq> 2 \<Longrightarrow> T \<noteq> 4 \<Longrightarrow> \<exists>e. decodePayload T p = Inl e"
  by (simp add: decodePayload_def ROTATE_def FLIP_def RESIZE_def COMPRESS_def)

lemma decodePayload_no_type:
  "T \<noteq> 1 \<Longrightarrow> T \<noteq> 2 \<Longrightarrow> T \<noteq> 3 \<Longrightarrow> T \<noteq> 4 \<Longrightarrow> \<exists>e. decodePayload T p = Inl e"
  by (simp add: decodePayload_def ROTATE_def FLIP_def RESIZE_def COMPRESS_def)

lemma flipped_type_1:
  assumes "m \<in> {1, 2, 4, 8, 16, 32, 64, 128}"
  shows "uint ((1 :: byte) XOR m) \<notin> {1, 2, 4}"
  using assms by (elim insertE emptyE) simp_all

lemma flipped_type_2:
  assumes "m \<in> {1, 2, 4, 8, 16, 32, 64, 128}"
  shows "uint ((2 :: byte) XOR m) \<notin> {1, 2, 4}"
  using assms by (elim insertE emptyE) simp_all

lemma flipped_type_4:
  assumes "m \<in> {1, 2, 4, 8, 16, 32, 64, 128}"
  shows "uint ((4 :: byte) XOR m) \<notin> {1, 2, 4}"
  using assms by (elim insertE emptyE) simp_all

lemma flipped_type_3:
  assumes "m \<in> {1, 2, 4, 8, 16, 32, 64, 128}" "m \<noteq> 1" "m \<noteq> 2"
  shows "uint ((3 :: byte) XOR m) \<notin> {1, 2, 3, 4}"
  using assms by (elim insertE emptyE) simp_all

lemma tamper_op_type_low:
  assumes m: "m \<in> {1, 2, 4, 8, 16, 32, 64, 128}" and p: "encodePayload op = Inr p"
  shows "if op_type op = RESIZE \<and> (m = 1 \<or> m = 2)
         then \<exists>op'. decode ((frame (op_type op) p)[2 := frame (op_type op) p ! 2 XOR m]) = Inr op'
                  \<and> op' \<noteq> op
         else \<exists>e. decode ((frame (op_type op) p)[2 := frame (op_type op) p ! 2 XOR m]) = Inl e"
proof -
  define t where "t = op_type op"
  have len: "length p = (if t = RESIZE then 8 else 1)"
    unfolding t_def using p by (rule encodePayload_length)
  have t: "t = 1 \<or> t = 2 \<or> t = 3 \<or> t = 4"
    unfolding t_def by (cases op) (simp_all add: ROTATE_def FLIP_def RESIZE_def COMPRESS_def)
  then have "0 \<le> t" "t < 256" "length p < 256" using len by auto
  then obtain tb lb c0 c1 c2 c3 :: byte where
    fr: "frame t p = 1 # 0 # tb # 0 # lb # 0 # 0 # 0 # c0 # c1 # c2 # c3 # p"
    and tb: "tb = word_of_int t"
    and ulb: "uint lb = int (length p)"
    and sum: "uint c0 + uint c1 * 256 + uint c2 * 65536 + uint c3 * 16777216 = calculateCRC32 p"
    by (rule frame_bytes)
  have dec: "decode ((frame t p)[2 := frame t p ! 2 XOR m]) = decodePayload (uint (tb XOR m)) p"
    unfolding fr
    by (simp add: decode_header_num list_update_Cons_numeral ulb sum decode_fields_ok)
  consider (rotate) "t = 1" | (flip) "t = 2" | (resize) "t = 3" | (compress) "t = 4"
    using t by blast
  then have "if t = RESIZE \<and> (m = 1 \<or> m = 2)
         then \<exists>op'. decodePayload (uint (tb XOR m)) p = Inr op' \<and> op' \<noteq> op
         else \<exists>e. decodePayload (uint (tb XOR m)) p = Inl e"
  proof cases
    case rotate
    then have "length p = 1" "tb = 1" using len tb by (simp_all add: RESIZE_def)
    then show ?thesis using flipped_type_1 [OF m] rotate
      by (auto simp: RESIZE_def intro!: decodePayload_one_byte)
  next
    case flip
    then have "length p = 1" "tb = 2" using len tb by (simp_all add: RESIZE_def)
    then show ?thesis using flipped_type_2 [OF m] flip
      by (auto simp: RESIZE_def intro!: decodePayload_one_byte)
  next
    case compress
    then have "length p = 1" "tb = 4" using len tb by (simp_all add: RESIZE_def)
    then show ?thesis using flipped_type_4 [OF m] compress
      by (auto simp: RESIZE_def intro!: decodePayload_one_byte)
  next
    case resize
    then have l8: "length p = 8" and tb3: "tb = 3" using len tb by (simp_all add: RESIZE_def)
    from resize obtain w h where op: "op = ResizeOp w h"
      unfolding t_def by (cases op) (simp_all add: ROTATE_def FLIP_def RESIZE_def COMPRESS_def)
    show ?thesis
    proof (cases "m = 1 \<or> m = 2")
      case True
      then show ?thesis using l8 op resize unfolding tb3
        by (auto simp: decodePayload_def Let_def ROTATE_def FLIP_def RESIZE_def COMPRESS_def)
    next
      case False
      then show ?thesis using flipped_type_3 [OF m] resize unfolding tb3
        by (auto simp: RESIZE_def intro!: decodePayload_no_type)
    qed
  qed
  then show ?thesis unfolding t_def [symmetric] dec .
qed

lemma length_frame: "length (frame t p) = 12 + length p"
  by (simp add: frame_def length_u32_bytes)

lemma bit_index_of_op_type:
  assumes "i div 8 = 2"
  shows "(i = 16 \<or> i = 17) \<longleftrightarrow> (push_bit (i mod 8) (1 :: byte) = 1 \<or> push_bit (i mod 8) (1 :: byte) = 2)"
proof -
  from assms have "i = 16 \<or> i = 17 \<or> i = 18 \<or> i = 19 \<or> i = 20 \<or> i = 21 \<or> i = 22 \<or> i = 23"
    by arith
  then show ?thesis by (elim disjE) simp_all
qed

text \<open>
  Claim C2, amended. For every operation that \<open>encode\<close> accepts and every bit position
  \<open>i\<close> of the message \<open>b\<close>, decoding \<open>b\<close> with bit \<open>i\<close> flipped fails, except for
  bits 0 and 1 of byte 2 (the low op_type byte) of a RESIZE message: there \<open>decode\<close>
  succeeds and returns a different operation, because the checksum covers the payload
  only and the payload length checks are lower bounds.
\<close>

theorem single_bit_flip_detected_except_op_type:
  assumes "encode op = Inr b" and "i < 8 * length b"
  shows "if op_type op = RESIZE \<and> (i = 16 \<or> i = 17)
         then \<exists>op'. decode (flip_bit b i) = Inr op' \<and> op' \<noteq> op
         else \<exists>e. decode (flip_bit b i) = Inl e"
proof -
  from assms(1) obtain p where p: "encodePayload op = Inr p" and b: "b = frame (op_type op) p"
    by (auto simp: encode_frame)
  define t where "t = op_type op"
  define k where "k = i div 8"
  define m :: byte where "m = push_bit (i mod 8) 1"
  have m: "m \<in> {1, 2, 4, 8, 16, 32, 64, 128}" unfolding m_def by (rule bit_mask_cases) simp
  then have m0: "m \<noteq> 0" by auto
  have len: "length p = 1 \<or> length p = 8" using encodePayload_length [OF p] by (simp split: if_splits)
  then have l256: "length p < 256" by auto
  have t: "0 \<le> t" "t < 256" unfolding t_def using op_type_range [of op] by simp_all
  have kb: "k < 12 + length p" using assms(2) unfolding k_def b length_frame by arith
  have fl: "flip_bit b i = (frame t p)[k := frame t p ! k XOR m]"
    by (simp add: flip_bit_def b t_def k_def m_def)
  have "(k = 0 \<or> k = 1) \<or> k = 2 \<or> k = 3 \<or> k = 4 \<or> (k = 5 \<or> k = 6 \<or> k = 7)
          \<or> (k = 8 \<or> k = 9 \<or> k = 10 \<or> k = 11) \<or> 12 \<le> k"
    by arith
  then consider (ver) "k = 0 \<or> k = 1" | (ty) "k = 2" | (tyh) "k = 3" | (pl) "k = 4"
    | (plh) "k = 5 \<or> k = 6 \<or> k = 7" | (crc) "k = 8 \<or> k = 9 \<or> k = 10 \<or> k = 11" | (pay) "12 \<le> k"
    by blast
  then show ?thesis
  proof cases
    case ty
    have "(i = 16 \<or> i = 17) \<longleftrightarrow> (m = 1 \<or> m = 2)"
      unfolding m_def using ty unfolding k_def by (rule bit_index_of_op_type)
    then show ?thesis
      using tamper_op_type_low [OF m p] unfolding fl ty t_def by simp
  next
    case ver
    then have "\<not> (i = 16 \<or> i = 17)" unfolding k_def by auto
    then show ?thesis using tamper_version [OF m0 ver t l256] unfolding fl by simp
  next
    case tyh
    then have "\<not> (i = 16 \<or> i = 17)" unfolding k_def by auto
    then show ?thesis using tamper_op_type_high [OF m0 tyh t l256] unfolding fl by simp
  next
    case pl
    then have "\<not> (i = 16 \<or> i = 17)" unfolding k_def by auto
    then show ?thesis using tamper_payload_len_low [OF m pl t len] unfolding fl by simp
  next
    case plh
    then have "\<not> (i = 16 \<or> i = 17)" unfolding k_def by auto
    then show ?thesis using tamper_payload_len_high [OF m0 plh t l256] unfolding fl by simp
  next
    case crc
    then have "\<not> (i = 16 \<or> i = 17)" unfolding k_def by auto
    then show ?thesis using tamper_checksum [OF m0 crc t l256] unfolding fl by simp
  next
    case pay
    then have "\<not> (i = 16 \<or> i = 17)" unfolding k_def by auto
    then show ?thesis using tamper_payload [OF m0 pay kb t l256] unfolding fl by simp
  qed
qed

text \<open>The statement at a ROTATE 90 message with a payload bit flipped.\<close>

theorem single_bit_flip_detected_except_op_type_witness:
  "encode (RotateOp 90) = Inr [1, 0, 1, 0, 1, 0, 0, 0, 103, 87, 188, 89, 90] \<and>
   (100 :: nat) < 8 * length [1, 0, 1, 0, 1, 0, 0, 0, 103, 87, 188, 89, 90 :: byte] \<and>
   (\<exists>e. decode (flip_bit [1, 0, 1, 0, 1, 0, 0, 0, 103, 87, 188, 89, 90] 100) = Inl e)"
proof -
  have h: "encode (RotateOp 90) = Inr [1, 0, 1, 0, 1, 0, 0, 0, 103, 87, 188, 89, 90]"
    by (simp add: eval_defs)
  have l: "(100 :: nat) < 8 * length [1, 0, 1, 0, 1, 0, 0, 0, 103, 87, 188, 89, 90 :: byte]"
    by simp
  show ?thesis
    using h l single_bit_flip_detected_except_op_type [OF h l]
    by (simp add: ROTATE_def RESIZE_def)
qed

text \<open>
  Claim C2 as stated fails: flipping bit 1 of byte 2 in the 20-byte encoding of the valid
  operation RESIZE(800, absent) turns op_type 3 into 1, and \<open>decode\<close> returns ROTATE 32.
\<close>

theorem flipped_op_type_bit_counterexample:
  "validate (ResizeOp (Some 800) None) \<and>
   encode (ResizeOp (Some 800) None)
     = Inr [1, 0, 3, 0, 8, 0, 0, 0, 162, 167, 188, 173, 32, 3, 0, 0, 0, 0, 0, 0] \<and>
   (17 :: nat) < 8 * length [1, 0, 3, 0, 8, 0, 0, 0, 162, 167, 188, 173, 32, 3, 0, 0, 0, 0, 0, 0 :: byte] \<and>
   decode (flip_bit [1, 0, 3, 0, 8, 0, 0, 0, 162, 167, 188, 173, 32, 3, 0, 0, 0, 0, 0, 0] 17)
     = Inr (RotateOp 32)"
  by (simp add: eval_defs flip_bit_def)

section \<open>Facts about the services\<close>

lemma invalidateThumbnail_Inr:
  "invalidateThumbnail w imageId = (Inr u, w') \<Longrightarrow>
     redis_up w \<and> w' = w\<lparr> redis_keys := redis_keys w - {''thumb:'' @ imageId} \<rparr>"
  by (auto simp: invalidateThumbnail_def Let_def split: if_splits)

lemma invalidateThumbnail_down:
  "\<not> redis_up w \<Longrightarrow> invalidateThumbnail w imageId = (Inl CacheError, w)"
  by (simp add: invalidateThumbnail_def)

lemma uploadResult_Inr:
  "uploadResult w imageId revisionId buffer mimeType = (Inr path, w') \<Longrightarrow>
     gcs_up w \<and> path = imageId @ ''_'' @ revisionId @ ''.'' @ getExtension mimeType \<and>
     w' = w\<lparr> gcs := (gcs w)((Results, path) \<mapsto> (buffer, mimeType)) \<rparr>"
  by (auto simp: uploadResult_def Let_def split: if_splits)

lemma storeResult_Inr:
  assumes "storeResult env w img imageId revisionId buffer = (Inr path, w')"
  shows "images w' = images w" "revisions w' = revisions w" "redis_up w' = redis_up w"
    "clock w' = clock w" "uuid_counter w' = uuid_counter w"
    "\<not> USE_LOCAL_STORAGE env \<Longrightarrow> gcs w' (Results, path) = Some (buffer, img_mime_type img)"
  using assms
  by (auto simp: storeResult_def Let_def writeFile_def
      dest!: uploadResult_Inr split: if_splits)

lemma storeResult_bytes:
  assumes "storeResult env w img imageId revisionId buffer = (Inr path, w')"
  shows "result_bytes env w' (r\<lparr> rev_storage_path := path \<rparr>) = Some buffer"
proof (cases "USE_LOCAL_STORAGE env")
  case True
  with assms show ?thesis
    by (auto simp: storeResult_def Let_def writeFile_def result_bytes_def)
next
  case False
  with assms have "gcs w' (Results, path) = Some (buffer, img_mime_type img)"
    by (simp add: storeResult_Inr(6))
  with False show ?thesis by (simp add: result_bytes_def)
qed

lemma result_bytes_same_store:
  "gcs w' = gcs w \<Longrightarrow> local_files w' = local_files w \<Longrightarrow>
     result_bytes env w' r = result_bytes env w r"
  by (simp add: result_bytes_def)

lemma storeResult_ok:
  assumes "USE_LOCAL_STORAGE env \<or> gcs_up w"
  shows "\<exists>path w'. storeResult env w img imageId revisionId buffer = (Inr path, w')"
  using assms by (auto simp: storeResult_def Let_def uploadResult_def)

lemma createRevision_row:
  assumes "createRevision env w imageId parentId opType opParams storagePath = (revision, w')"
  shows "rev_parent_id revision = parentId" "rev_storage_path revision = storagePath"
    "revisions w' = revisions w @ [revision]" "images w' = images w" "gcs w' = gcs w"
    "redis_up w' = redis_up w" "local_files w' = local_files w"
  using assms by (auto simp: createRevision_def Let_def)

text \<open>What a successful run of the locked callback went through.\<close>

lemma applyOp_locked_Inr:
  assumes "applyOp_locked env imageId operation w = (Inr revision, w')"
  obtains img src out resultPath w2 w3 u where
    "getImage w imageId = Some img"
    "fetchSource env w (sourceBucket (getLatestRevision w imageId))
       (sourcePath img (getLatestRevision w imageId)) = Inr src"
    "run_pipeline env operation src = Inr out"
    "storeResult env (w\<lparr> uuid_counter := Suc (uuid_counter w) \<rparr>) img imageId
       (uuid_of env (uuid_counter w)) out = (Inr resultPath, w2)"
    "createRevision env w2 imageId (parent_id_or_null (getLatestRevision w imageId))
       (op_type operation) (params operation) resultPath = (revision, w3)"
    "invalidateThumbnail w3 imageId = (Inr u, w')"
  using assms
  unfolding applyOp_locked_def Let_def
  by (auto split: option.splits sum.splits prod.splits)

lemma applyOp_db:
  "\<not> SKIP_DB_CHECK env \<Longrightarrow> applyOp env imageId operation w = (Inr revision, w') \<Longrightarrow>
     validate operation \<and> applyOp_locked env imageId operation w = (Inr revision, w')"
  by (auto simp: applyOp_def withImageLock_def split: if_splits prod.splits sum.splits)

text \<open>Everything a successful database-backed \<open>applyOp\<close> establishes.\<close>

lemma applyOp_success:
  assumes "\<not> SKIP_DB_CHECK env" "getImage w imageId = Some img"
    and "applyOp env imageId operation w = (Inr revision, w')"
  shows "rev_parent_id revision = parent_id_or_null (getLatestRevision w imageId)"
    and "revision \<in> set (revisions w')"
    and "\<exists>src out.
           fetchSource env w (sourceBucket (getLatestRevision w imageId))
             (sourcePath img (getLatestRevision w imageId)) = Inr src \<and>
           run_pipeline env operation src = Inr out \<and>
           result_bytes env w' revision = Some out \<and>
           (\<not> USE_LOCAL_STORAGE env \<longrightarrow>
              gcs w' (Results, rev_storage_path revision) = Some (out, img_mime_type img))"
proof -
  from assms have "applyOp_locked env imageId operation w = (Inr revision, w')"
    by (simp add: applyOp_db)
  then obtain img' src out resultPath w2 w3 u where
    img': "getImage w imageId = Some img'"
    and src: "fetchSource env w (sourceBucket (getLatestRevision w imageId))
       (sourcePath img' (getLatestRevision w imageId)) = Inr src"
    and out: "run_pipeline env operation src = Inr out"
    and st: "storeResult env (w\<lparr> uuid_counter := Suc (uuid_counter w) \<rparr>) img' imageId
       (uuid_of env (uuid_counter w)) out = (Inr resultPath, w2)"
    and cr: "createRevision env w2 imageId (parent_id_or_null (getLatestRevision w imageId))
           (op_type operation) (params operation) resultPath = (revision, w3)"
    and inv: "invalidateThumbnail w3 imageId = (Inr u, w')"
    by (rule applyOp_locked_Inr)
  have eq: "img' = img" using img' assms(2) by simp
  show "rev_parent_id revision = parent_id_or_null (getLatestRevision w imageId)"
    using createRevision_row(1) [OF cr] .
  have w': "w' = w3\<lparr> redis_keys := redis_keys w3 - {''thumb:'' @ imageId} \<rparr>"
    using invalidateThumbnail_Inr [OF inv] by simp
  show "revision \<in> set (revisions w')"
    using createRevision_row(3) [OF cr] by (simp add: w')
  have path: "rev_storage_path revision = resultPath" using createRevision_row(2) [OF cr] .
  have "result_bytes env w2 (revision\<lparr> rev_storage_path := resultPath \<rparr>) = Some out"
    using st by (rule storeResult_bytes)
  moreover have "revision\<lparr> rev_storage_path := resultPath \<rparr> = revision"
    using path by simp
  ultimately have "result_bytes env w2 revision = Some out" by simp
  moreover have "result_bytes env w' revision = result_bytes env w2 revision"
    using createRevision_row(5,7) [OF cr] by (intro result_bytes_same_store) (simp_all add: w')
  ultimately have rb: "result_bytes env w' revision = Some out" by simp
  have ct: "\<not> USE_LOCAL_STORAGE env \<longrightarrow>
              gcs w' (Results, rev_storage_path revision) = Some (out, img_mime_type img)"
    using storeResult_Inr(6) [OF st] createRevision_row(5) [OF cr] path eq by (simp add: w')
  show "\<exists>src out.
           fetchSource env w (sourceBucket (getLatestRevision w imageId))
             (sourcePath img (getLatestRevision w imageId)) = Inr src \<and>
           run_pipeline env operation src = Inr out \<and>
           result_bytes env w' revision = Some out \<and>
           (\<not> USE_LOCAL_STORAGE env \<longrightarrow>
              gcs w' (Results, rev_storage_path revision) = Some (out, img_mime_type img))"
    using src out rb ct eq by blast
qed

lemmas service_defs =
  applyOp_def applyOp_locked_def withImageLock_def getImage_def getLatestRevision_def
  getRevision_def createRevision_def uploadResult_def download_def getExtension_def
  fetchSource_def storeResult_def result_bytes_def
  invalidateThumbnail_def run_pipeline_def undo_def Let_def
  example_env_def example_image_def fresh_world_def rev1_def rev2_def edited_world_def
  ROTATE_def FLIP_def RESIZE_def COMPRESS_def

lemma latest_of_mem: "latest_of rs = Some r \<Longrightarrow> r \<in> set rs"
  by (induction rs arbitrary: r) (auto split: option.splits if_splits)

lemma getLatestRevision_mem: "getLatestRevision w imageId = Some r \<Longrightarrow> r \<in> set (revisions w)"
  by (auto simp: getLatestRevision_def dest: latest_of_mem)

lemma fetchSource_world:
  assumes "fetchSource env w bucket path = Inr src"
  shows "if USE_LOCAL_STORAGE env
         then local_files w (bucket, basename path) = Some src
         else map_option fst (gcs w (bucket, path)) = Some src"
  using assms
  by (auto simp: fetchSource_def readFile_def download_def split: if_splits option.splits)

text \<open>
  Claim C6. For every database-backed call of \<open>applyOp(imageId, op)\<close> on an existing
  image that succeeds (row identifiers being non-empty, as UUID keys are): if the image has
  a latest revision \<open>parent\<close>, the source bytes are the content of the results bucket at
  \<open>parent.storage_path\<close> and the committed revision row has \<open>parent_id = parent.id\<close>;
  if no revision exists, the source bytes are the content of the raw bucket at
  \<open>image.original_path\<close> and the committed row has \<open>parent_id = null\<close>. The bucket is
  the object store's, or with local storage the directory of that name, where the file is
  named by the last component of the path. The bytes stored for the new revision are the
  pipeline's output on exactly those source bytes.
\<close>

theorem applyOp_source_and_parent:
  assumes "\<not> SKIP_DB_CHECK env" and "getImage w imageId = Some img"
    and "applyOp env imageId operation w = (Inr revision, w')"
    and "\<forall>r \<in> set (revisions w). rev_id r \<noteq> []"
  shows "revision \<in> set (revisions w') \<and>
     (case getLatestRevision w imageId of
        Some parent \<Rightarrow>
          rev_parent_id revision = Some (rev_id parent) \<and>
          (\<exists>src out.
             (if USE_LOCAL_STORAGE env
              then local_files w (Results, basename (rev_storage_path parent)) = Some src
              else map_option fst (gcs w (Results, rev_storage_path parent)) = Some src) \<and>
             run_pipeline env operation src = Inr out \<and>
             result_bytes env w' revision = Some out)
      | None \<Rightarrow>
          rev_parent_id revision = None \<and>
          (\<exists>src out.
             (if USE_LOCAL_STORAGE env
              then local_files w (Raw, basename (img_original_path img)) = Some src
              else map_option fst (gcs w (Raw, img_original_path img)) = Some src) \<and>
             run_pipeline env operation src = Inr out \<and>
             result_bytes env w' revision = Some out))"
proof -
  obtain src out where
    src: "fetchSource env w (sourceBucket (getLatestRevision w imageId))
            (sourcePath img (getLatestRevision w imageId)) = Inr src"
    and out: "run_pipeline env operation src = Inr out"
    and res: "result_bytes env w' revision = Some out"
    using applyOp_success(3) [OF assms(1-3)] by blast
  have mem: "revision \<in> set (revisions w')" using assms(1-3) by (rule applyOp_success(2))
  have par: "rev_parent_id revision = parent_id_or_null (getLatestRevision w imageId)"
    using assms(1-3) by (rule applyOp_success(1))
  show ?thesis
  proof (cases "getLatestRevision w imageId")
    case None
    have "fetchSource env w Raw (img_original_path img) = Inr src" using src None by simp
    then have "if USE_LOCAL_STORAGE env
          then local_files w (Raw, basename (img_original_path img)) = Some src
          else map_option fst (gcs w (Raw, img_original_path img)) = Some src"
      by (rule fetchSource_world)
    then show ?thesis using None mem par out res by auto
  next
    case (Some parent)
    then have "rev_id parent \<noteq> []" using assms(4) getLatestRevision_mem by blast
    then have pid: "rev_parent_id revision = Some (rev_id parent)" using par Some by simp
    have "fetchSource env w Results (rev_storage_path parent) = Inr src" using src Some by simp
    then have "if USE_LOCAL_STORAGE env
          then local_files w (Results, basename (rev_storage_path parent)) = Some src
          else map_option fst (gcs w (Results, rev_storage_path parent)) = Some src"
      by (rule fetchSource_world)
    then show ?thesis using Some mem pid out res by auto
  qed
qed

text \<open>
  The statement at three calls: a rotation by 180 of the image whose latest result
  (\<open>9, 8, 7, 6\<close>) differs from its original (\<open>1, 2, 3\<close>); a rotation by 90 of the image
  without revisions; and the rotation by 180 with local storage, where the latest result
  is the file \<open>img_b.png\<close> of the results directory.
\<close>

theorem applyOp_source_and_parent_witness:
  "(getLatestRevision retouched_world ''img'' = Some rev2 \<and>
    gcs retouched_world (Raw, ''user/img.png'') = Some ([1, 2, 3], ''image/png'') \<and>
    gcs retouched_world (Results, rev_storage_path rev2) = Some ([9, 8, 7, 6], ''image/png'') \<and>
    applyOp example_env ''img'' (RotateOp 180) retouched_world =
      (Inr \<lparr> rev_id = ''rr'', rev_image_id = ''img'', rev_parent_id = Some ''rev2'',
              rev_op_type = 1, rev_op_params = Degrees 180, rev_storage_path = ''img_r.png'',
              rev_created_at = 3 \<rparr>,
       snd (applyOp example_env ''img'' (RotateOp 180) retouched_world)) \<and>
    gcs (snd (applyOp example_env ''img'' (RotateOp 180) retouched_world)) (Results, ''img_r.png'')
      = Some ([6, 7, 8, 9], ''image/png'')) \<and>
   (getLatestRevision fresh_world ''img'' = None \<and>
    gcs fresh_world (Raw, img_original_path example_image) = Some ([1, 2, 3], ''image/png'') \<and>
    applyOp example_env ''img'' (RotateOp 90) fresh_world =
      (Inr \<lparr> rev_id = ''rr'', rev_image_id = ''img'', rev_parent_id = None,
              rev_op_type = 1, rev_op_params = Degrees 90, rev_storage_path = ''img_r.png'',
              rev_created_at = 1 \<rparr>,
       snd (applyOp example_env ''img'' (RotateOp 90) fresh_world)) \<and>
    gcs (snd (applyOp example_env ''img'' (RotateOp 90) fresh_world)) (Results, ''img_r.png'')
      = Some ([3, 2, 1], ''image/png'')) \<and>
   (getLatestRevision local_world ''img'' = Some (rev2 \<lparr> rev_storage_path := ''local/img_b.png'' \<rparr>) \<and>
    basename ''local/img_b.png'' = ''img_b.png'' \<and>
    local_files local_world (Results, ''img_b.png'') = Some [5, 5, 4] \<and>
    applyOp local_env ''img'' (RotateOp 180) local_world =
      (Inr \<lparr> rev_id = ''rr'', rev_image_id = ''img'', rev_parent_id = Some ''rev2'',
              rev_op_type = 1, rev_op_params = Degrees 180,
              rev_storage_path = ''local/img_r.png'', rev_created_at = 3 \<rparr>,
       snd (applyOp local_env ''img'' (RotateOp 180) local_world)) \<and>
    local_files (snd (applyOp local_env ''img'' (RotateOp 180) local_world)) (Results, ''img_r.png'')
      = Some [4, 5, 5])"
proof -
  have db: "\<not> SKIP_DB_CHECK example_env" "\<not> SKIP_DB_CHECK local_env"
    by (simp_all add: example_env_def local_env_def)
  have i1: "getImage retouched_world ''img'' = Some example_image"
    by (simp add: service_defs retouched_world_def)
  have a1: "applyOp example_env ''img'' (RotateOp 180) retouched_world =
      (Inr \<lparr> rev_id = ''rr'', rev_image_id = ''img'', rev_parent_id = Some ''rev2'',
              rev_op_type = 1, rev_op_params = Degrees 180, rev_storage_path = ''img_r.png'',
              rev_created_at = 3 \<rparr>,
       snd (applyOp example_env ''img'' (RotateOp 180) retouched_world))"
    by (simp add: service_defs retouched_world_def)
  have u1: "\<forall>r \<in> set (revisions retouched_world). rev_id r \<noteq> []"
    by (simp add: service_defs retouched_world_def)
  have l1: "getLatestRevision retouched_world ''img'' = Some rev2"
    by (simp add: service_defs retouched_world_def)
  have g1: "gcs retouched_world (Raw, ''user/img.png'') = Some ([1, 2, 3], ''image/png'')"
    "gcs retouched_world (Results, rev_storage_path rev2) = Some ([9, 8, 7, 6], ''image/png'')"
    by (simp_all add: service_defs retouched_world_def)
  have r1: "gcs (snd (applyOp example_env ''img'' (RotateOp 180) retouched_world))
      (Results, ''img_r.png'') = Some ([6, 7, 8, 9], ''image/png'')"
    by (simp add: service_defs retouched_world_def)
  have i2: "getImage fresh_world ''img'' = Some example_image" by (simp add: service_defs)
  have a2: "applyOp example_env ''img'' (RotateOp 90) fresh_world =
      (Inr \<lparr> rev_id = ''rr'', rev_image_id = ''img'', rev_parent_id = None,
              rev_op_type = 1, rev_op_params = Degrees 90, rev_storage_path = ''img_r.png'',
              rev_created_at = 1 \<rparr>,
       snd (applyOp example_env ''img'' (RotateOp 90) fresh_world))"
    by (simp add: service_defs)
  have u2: "\<forall>r \<in> set (revisions fresh_world). rev_id r \<noteq> []" by (simp add: service_defs)
  have l2: "getLatestRevision fresh_world ''img'' = None" by (simp add: service_defs)
  have g2: "gcs fresh_world (Raw, img_original_path example_image)
      = Some ([1, 2, 3], ''image/png'')"
    by (simp add: service_defs)
  have r2: "gcs (snd (applyOp example_env ''img'' (RotateOp 90) fresh_world))
      (Results, ''img_r.png'') = Some ([3, 2, 1], ''image/png'')"
    by (simp add: service_defs)
  have b3: "basename ''local/img_b.png'' = ''img_b.png''" by (simp add: basename_def)
  have i3: "getImage local_world ''img''
      = Some (example_image \<lparr> img_original_path := ''local/user/img.png'' \<rparr>)"
    by (simp add: service_defs local_world_def)
  have a3: "applyOp local_env ''img'' (RotateOp 180) local_world =
      (Inr \<lparr> rev_id = ''rr'', rev_image_id = ''img'', rev_parent_id = Some ''rev2'',
              rev_op_type = 1, rev_op_params = Degrees 180,
              rev_storage_path = ''local/img_r.png'', rev_created_at = 3 \<rparr>,
       snd (applyOp local_env ''img'' (RotateOp 180) local_world))"
    by (simp add: service_defs local_world_def local_env_def readFile_def writeFile_def
        basename_def)
  have u3: "\<forall>r \<in> set (revisions local_world). rev_id r \<noteq> []"
    by (simp add: service_defs local_world_def)
  have l3: "getLatestRevision local_world ''img''
      = Some (rev2 \<lparr> rev_storage_path := ''local/img_b.png'' \<rparr>)"
    by (simp add: service_defs local_world_def)
  have g3: "local_files local_world (Results, ''img_b.png'') = Some [5, 5, 4]"
    by (simp add: service_defs local_world_def)
  have r3: "local_files (snd (applyOp local_env ''img'' (RotateOp 180) local_world))
      (Results, ''img_r.png'') = Some [4, 5, 5]"
    by (simp add: service_defs local_world_def local_env_def readFile_def writeFile_def
        basename_def)
  note t1 = applyOp_source_and_parent [OF db(1) i1 a1 u1]
  note t2 = applyOp_source_and_parent [OF db(1) i2 a2 u2]
  note t3 = applyOp_source_and_parent [OF db(2) i3 a3 u3]
  show ?thesis
    using t1 t2 t3 a1 l1 g1 r1 a2 l2 g2 r2 b3 a3 l3 g3 r3 by simp
qed

text \<open>
  Claim C5 as stated fails: a COMPRESS of a PNG image succeeds and the result object is
  written with content type image/png, not image/jpeg.
\<close>

theorem compress_png_content_type_counterexample:
  "validate (CompressOp 50) \<and> img_mime_type example_image = ''image/png'' \<and>
   getImage fresh_world ''img'' = Some example_image \<and>
   fst (applyOp example_env ''img'' (CompressOp 50) fresh_world)
     = Inr \<lparr> rev_id = ''rr'', rev_image_id = ''img'', rev_parent_id = None, rev_op_type = 4,
             rev_op_params = Quality 50, rev_storage_path = ''img_r.png'', rev_created_at = 1 \<rparr> \<and>
   gcs (snd (applyOp example_env ''img'' (CompressOp 50) fresh_world)) (Results, ''img_r.png'')
     = Some ([3, 2, 1], ''image/png'')"
  by (simp add: service_defs)

text \<open>
  Claim C5, amended. For every successful database-backed \<open>applyOp\<close> with the object
  store, the content type recorded on the result object is the mime type of the image row,
  whatever the operation: ROTATE, FLIP and RESIZE preserve the source mime, and so does
  COMPRESS (a compressed PNG is stored as image/png).
\<close>

theorem applyOp_content_type_is_image_mime:
  assumes "\<not> SKIP_DB_CHECK env" and "\<not> USE_LOCAL_STORAGE env"
    and "getImage w imageId = Some img"
    and "applyOp env imageId operation w = (Inr revision, w')"
  shows "\<exists>out. gcs w' (Results, rev_storage_path revision) = Some (out, img_mime_type img)"
  using applyOp_success(3) [OF assms(1,3,4)] assms(2) by blast

text \<open>The statement at the COMPRESS of the PNG image.\<close>

theorem applyOp_content_type_is_image_mime_witness:
  "\<not> SKIP_DB_CHECK example_env \<and> \<not> USE_LOCAL_STORAGE example_env \<and>
   getImage fresh_world ''img'' = Some example_image \<and>
   applyOp example_env ''img'' (CompressOp 50) fresh_world
     = (Inr \<lparr> rev_id = ''rr'', rev_image_id = ''img'', rev_parent_id = None, rev_op_type = 4,
              rev_op_params = Quality 50, rev_storage_path = ''img_r.png'', rev_created_at = 1 \<rparr>,
        snd (applyOp example_env ''img'' (CompressOp 50) fresh_world)) \<and>
   (\<exists>out. gcs (snd (applyOp example_env ''img'' (CompressOp 50) fresh_world))
            (Results, ''img_r.png'') = Some (out, ''image/png''))"
proof -
  have a: "\<not> SKIP_DB_CHECK example_env" by (simp add: example_env_def)
  have b: "\<not> USE_LOCAL_STORAGE example_env" by (simp add: example_env_def)
  have c: "getImage fresh_world ''img'' = Some example_image" by (simp add: service_defs)
  have d: "applyOp example_env ''img'' (CompressOp 50) fresh_world
     = (Inr \<lparr> rev_id = ''rr'', rev_image_id = ''img'', rev_parent_id = None, rev_op_type = 4,
              rev_op_params = Quality 50, rev_storage_path = ''img_r.png'', rev_created_at = 1 \<rparr>,
        snd (applyOp example_env ''img'' (CompressOp 50) fresh_world))"
    by (simp add: service_defs)
  show ?thesis
    using a b c d applyOp_content_type_is_image_mime [OF a b c d]
    by (simp add: example_image_def)
qed

text \<open>
  Claim C9 as stated fails: with the cache down and every earlier step succeeding,
  \<open>applyOp\<close> fails with the cache error and no revision row remains.
\<close>

theorem cache_failure_fails_applyOp_counterexample:
  "validate (RotateOp 90) \<and> getImage (fresh_world\<lparr> redis_up := False \<rparr>) ''img'' = Some example_image \<and>
   fst (applyOp example_env ''img'' (RotateOp 90) (fresh_world\<lparr> redis_up := False \<rparr>))
     = Inl CacheError \<and>
   revisions (snd (applyOp example_env ''img'' (RotateOp 90) (fresh_world\<lparr> redis_up := False \<rparr>)))
     = []"
  by (simp add: service_defs)

text \<open>
  Claim C9, amended. If every step of a database-backed \<open>applyOp\<close> up to and including
  the insertion of the revision row succeeds but the thumbnail-cache invalidation fails,
  \<open>applyOp\<close> fails with the cache error: the error propagates out of the locked
  callback, the transaction is rolled back, and both tables are exactly as before the call
  (no revision row is committed or returned).
\<close>

theorem cache_failure_rolls_back_applyOp:
  assumes "\<not> SKIP_DB_CHECK env" and "validate operation"
    and "getImage w imageId = Some img"
    and "fetchSource env w (sourceBucket (getLatestRevision w imageId))
           (sourcePath img (getLatestRevision w imageId)) = Inr src"
    and "run_pipeline env operation src = Inr out"
    and "USE_LOCAL_STORAGE env \<or> gcs_up w"
    and "\<not> redis_up w"
  shows "\<exists>w'. applyOp env imageId operation w = (Inl CacheError, w') \<and>
              revisions w' = revisions w \<and> images w' = images w"
proof -
  define w1 where "w1 = w\<lparr> uuid_counter := Suc (uuid_counter w) \<rparr>"
  have "USE_LOCAL_STORAGE env \<or> gcs_up w1" using assms(6) by (simp add: w1_def)
  then obtain resultPath w2 where
    st: "storeResult env w1 img imageId (uuid_of env (uuid_counter w)) out = (Inr resultPath, w2)"
    using storeResult_ok by blast
  obtain revision w3 where
    cr: "createRevision env w2 imageId (parent_id_or_null (getLatestRevision w imageId))
           (op_type operation) (params operation) resultPath = (revision, w3)"
    by (cases "createRevision env w2 imageId (parent_id_or_null (getLatestRevision w imageId))
           (op_type operation) (params operation) resultPath") auto
  have "redis_up w3 = redis_up w"
    using createRevision_row(6) [OF cr] storeResult_Inr(3) [OF st] by (simp add: w1_def)
  then have inv: "invalidateThumbnail w3 imageId = (Inl CacheError, w3)"
    using assms(7) by (simp add: invalidateThumbnail_down)
  have "applyOp_locked env imageId operation w = (Inl CacheError, w3)"
    using assms(3,4,5) st cr inv
    by (simp add: applyOp_locked_def Let_def w1_def)
  then have "applyOp env imageId operation w
      = (Inl CacheError, w3\<lparr> images := images w, revisions := revisions w \<rparr>)"
    using assms(1,2) by (simp add: applyOp_def withImageLock_def)
  then show ?thesis by simp
qed

text \<open>The statement at a ROTATE 90 of the fresh image with the cache down.\<close>

theorem cache_failure_rolls_back_applyOp_witness:
  "\<not> SKIP_DB_CHECK example_env \<and> validate (RotateOp 90) \<and>
   getImage (fresh_world\<lparr> redis_up := False \<rparr>) ''img'' = Some example_image \<and>
   (\<exists>w'. applyOp example_env ''img'' (RotateOp 90) (fresh_world\<lparr> redis_up := False \<rparr>)
            = (Inl CacheError, w') \<and>
         revisions w' = revisions (fresh_world\<lparr> redis_up := False \<rparr>) \<and>
         images w' = images (fresh_world\<lparr> redis_up := False \<rparr>))"
proof -
  let ?w = "fresh_world\<lparr> redis_up := False \<rparr>"
  have a: "\<not> SKIP_DB_CHECK example_env" by (simp add: example_env_def)
  have b: "validate (RotateOp 90)" by simp
  have c: "getImage ?w ''img'' = Some example_image" by (simp add: service_defs)
  have d: "fetchSource example_env ?w (sourceBucket (getLatestRevision ?w ''img''))
           (sourcePath example_image (getLatestRevision ?w ''img'')) = Inr [1, 2, 3]"
    by (simp add: service_defs)
  have e: "run_pipeline example_env (RotateOp 90) [1, 2, 3] = Inr [3, 2, 1]"
    by (simp add: service_defs)
  have f: "USE_LOCAL_STORAGE example_env \<or> gcs_up ?w" by (simp add: service_defs)
  have g: "\<not> redis_up ?w" by simp
  show ?thesis
    using a b c cache_failure_rolls_back_applyOp [OF a b c d e f g] by simp
qed

text \<open>
  Claim C4 as stated fails in scenario b: \<open>undo\<close> returns rev1, but afterwards the
  latest revision is still rev2, and the next \<open>applyOp\<close> records rev2 as its parent.
\<close>

theorem undo_leaves_latest_revision_counterexample:
  "getLatestRevision edited_world ''img'' = Some rev2 \<and>
   rev_parent_id rev2 = Some (rev_id rev1) \<and>
   undo ''img'' edited_world = (Inr rev1, edited_world\<lparr> redis_keys := {} \<rparr>) \<and>
   getLatestRevision (edited_world\<lparr> redis_keys := {} \<rparr>) ''img'' = Some rev2 \<and>
   rev2 \<noteq> rev1 \<and>
   map_sum id rev_parent_id
     (fst (applyOp example_env ''img'' (RotateOp 180) (edited_world\<lparr> redis_keys := {} \<rparr>)))
     = Inr (Some ''rev2'')"
  by (simp add: service_defs)

lemma getRevision_id: "getRevision w revisionId = Some r \<Longrightarrow> rev_id r = revisionId"
  by (auto simp: getRevision_def find_Some_iff)

lemma getLatestRevision_same_table:
  "revisions w' = revisions w \<Longrightarrow> getLatestRevision w' imageId = getLatestRevision w imageId"
  by (simp add: getLatestRevision_def)

text \<open>
  Claim C4, amended. For every image whose latest revision \<open>cur\<close> has a non-null
  \<open>parent_id\<close> referencing revision \<open>p\<close>, a successful \<open>undo(imageId)\<close> returns \<open>p\<close>
  and changes no row (nothing is tombstoned or deleted): immediately afterwards
  \<open>getLatestRevision(imageId)\<close> still returns \<open>cur\<close>, so that a subsequent
  database-backed \<open>applyOp\<close> uses \<open>cur\<close> as the new revision's parent.
\<close>

theorem undo_returns_parent_and_changes_no_row:
  assumes "undo imageId w = (Inr p, w')"
  shows "\<exists>cur. getLatestRevision w imageId = Some cur \<and>
           rev_parent_id cur = Some (rev_id p) \<and> getRevision w (rev_id p) = Some p \<and>
           revisions w' = revisions w \<and> images w' = images w \<and>
           getLatestRevision w' imageId = Some cur \<and>
           (\<forall>env operation revision w''.
              \<not> SKIP_DB_CHECK env \<longrightarrow>
              applyOp env imageId operation w' = (Inr revision, w'') \<longrightarrow>
              rev_parent_id revision = parent_id_or_null (Some cur))"
proof -
  from assms obtain cur parentId u where
    cur: "getLatestRevision w imageId = Some cur"
    and pid: "rev_parent_id cur = Some parentId"
    and par: "getRevision w parentId = Some p"
    and inv: "invalidateThumbnail w imageId = (Inr u, w')"
    by (auto simp: undo_def split: option.splits if_splits prod.splits sum.splits)
  have id: "rev_id p = parentId" using par by (rule getRevision_id)
  have w': "w' = w\<lparr> redis_keys := redis_keys w - {''thumb:'' @ imageId} \<rparr>"
    using invalidateThumbnail_Inr [OF inv] by simp
  have tab: "revisions w' = revisions w" "images w' = images w" by (simp_all add: w')
  have latest: "getLatestRevision w' imageId = Some cur"
    using cur getLatestRevision_same_table [OF tab(1)] by simp
  have next_parent: "rev_parent_id revision = parent_id_or_null (Some cur)"
    if "\<not> SKIP_DB_CHECK env" "applyOp env imageId operation w' = (Inr revision, w'')"
    for env operation revision w''
  proof -
    from that have "applyOp_locked env imageId operation w' = (Inr revision, w'')"
      by (simp add: applyOp_db)
    then obtain resultPath w2 w3 where
      "createRevision env w2 imageId (parent_id_or_null (getLatestRevision w' imageId))
         (op_type operation) (params operation) resultPath = (revision, w3)"
      by (rule applyOp_locked_Inr)
    then show ?thesis using latest by (simp add: createRevision_row(1))
  qed
  show ?thesis using cur pid par id tab latest next_parent by blast
qed

text \<open>The statement at scenario b's image with two revisions.\<close>

theorem undo_returns_parent_and_changes_no_row_witness:
  "undo ''img'' edited_world = (Inr rev1, edited_world\<lparr> redis_keys := {} \<rparr>) \<and>
   getLatestRevision edited_world ''img'' = Some rev2 \<and>
   rev_parent_id rev2 = Some (rev_id rev1) \<and>
   revisions (edited_world\<lparr> redis_keys := {} \<rparr>) = revisions edited_world \<and>
   getLatestRevision (edited_world\<lparr> redis_keys := {} \<rparr>) ''img'' = Some rev2"
proof -
  have h: "undo ''img'' edited_world = (Inr rev1, edited_world\<lparr> redis_keys := {} \<rparr>)"
    by (simp add: service_defs)
  show ?thesis
    using h undo_returns_parent_and_changes_no_row [OF h]
    by (auto simp: service_defs)
qed

end
